theory Spec2Isabelle
  imports Main "HOL-Library.Char_ord" "HOL-Library.List_Lexorder" "HOL-Library.Multiset"
begin

section \<open>create-file-tree: a directory tree lister in two variants\<close>

text \<open>
  The repository holds two Python scripts with the same function names:
  \<^verbatim>\<open>create-file-tree.py\<close> (the first variant, suffix \<open>_v1\<close> below) and
  \<^verbatim>\<open>file-tree-maker-v5.py\<close> (the second variant, suffix \<open>_v2\<close>). Functions that
  are textually the same in both files are modelled once.

  Strings are \<^typ>\<open>string\<close>, a list of 8-bit characters. The model is meant for ASCII
  file names: there Python's \<^verbatim>\<open>\d\<close> is \<open>[0-9]\<close>, \<^verbatim>\<open>\w\<close> is \<open>[A-Za-z0-9_]\<close>, and the
  order of \<^verbatim>\<open>sorted\<close> on \<^verbatim>\<open>str\<close> is the lexicographic order on character codes.
  \<^verbatim>\<open>print\<close> only copies each line to the terminal and is left out.
\<close>

subsection \<open>String helpers of Python\<close>

definition LF :: char where
  "LF = CHR 0x0A"

definition CR :: char where
  "CR = CHR 0x0D"

definition startswith :: "string \<Rightarrow> string \<Rightarrow> bool" where
  "startswith s p = (take (length p) s = p)"

definition endswith :: "string \<Rightarrow> string \<Rightarrow> bool" where
  "endswith s p = (length p \<le> length s \<and> drop (length s - length p) s = p)"

text \<open>
  The classes \<^verbatim>\<open>\d\<close> and \<^verbatim>\<open>\w\<close> of the pattern, on ASCII characters. The pattern is a
  \<^verbatim>\<open>str\<close> pattern, so on other characters Python uses the Unicode classes, which the
  model does not have: what the pattern accepts is stated for ASCII names only.
\<close>

definition is_ascii :: "char \<Rightarrow> bool" where
  "is_ascii c = (c \<le> CHR 0x7F)"

definition is_digit :: "char \<Rightarrow> bool" where
  "is_digit c = (CHR ''0'' \<le> c \<and> c \<le> CHR ''9'')"

definition is_word :: "char \<Rightarrow> bool" where
  "is_word c = (is_digit c \<or> (CHR ''a'' \<le> c \<and> c \<le> CHR ''z'')
     \<or> (CHR ''A'' \<le> c \<and> c \<le> CHR ''Z'') \<or> c = CHR ''_'')"

text \<open>\<^verbatim>\<open>int(frame)\<close> on a string of decimal digits.\<close>

definition digit_value :: "char \<Rightarrow> nat" where
  "digit_value c = of_char c - of_char (CHR ''0'')"

definition int_of_digits :: "string \<Rightarrow> nat" where
  "int_of_digits s = foldl (\<lambda>n c. 10 * n + digit_value c) 0 s"

subsection \<open>The frame pattern\<close>

text \<open>
  \<^verbatim>\<open>pattern = re.compile(r"(.*?)(\d{4})\.(\w+)$")\<close>, used with \<^verbatim>\<open>pattern.match\<close>, which
  anchors the match at the start of the name.

  \<open>match_tail\<close> is the part after the first group, \<^verbatim>\<open>(\d{4})\.(\w+)$\<close>, tried at the start
  of the remaining text: four digits, a dot, then the greedy run of word characters,
  which has to be non-empty and has to stop where \<^verbatim>\<open>$\<close> holds, that is at the end of the
  text or just before a newline that ends it. A shorter run is followed by a word
  character, so backtracking into the run never helps.

  \<open>pattern_match_from\<close> is the lazy group \<^verbatim>\<open>(.*?)\<close>: it tries the rest of the pattern with
  the base matched so far and on failure extends the base by one character, which must
  not be a newline.
\<close>

definition match_tail :: "string \<Rightarrow> (string \<times> string) option" where
  "match_tail s =
     (let frame = take 4 s; rest = drop 4 s in
      if length frame = 4 \<and> list_all is_digit frame \<and> take 1 rest = ''.'' then
        (let ext = takeWhile is_word (drop 1 rest);
             after = dropWhile is_word (drop 1 rest) in
         if ext \<noteq> [] \<and> (after = [] \<or> after = [LF]) then Some (frame, ext) else None)
      else None)"

fun pattern_match_from :: "string \<Rightarrow> string \<Rightarrow> (string \<times> string \<times> string) option" where
  "pattern_match_from base [] =
     (case match_tail [] of Some (frame, ext) \<Rightarrow> Some (base, frame, ext) | None \<Rightarrow> None)"
| "pattern_match_from base (c # cs) =
     (case match_tail (c # cs) of
        Some (frame, ext) \<Rightarrow> Some (base, frame, ext)
      | None \<Rightarrow> if c = LF then None else pattern_match_from (base @ [c]) cs)"

definition pattern_match :: "string \<Rightarrow> (string \<times> string \<times> string) option" where
  "pattern_match filename = pattern_match_from [] filename"

subsection \<open>The insertion-ordered \<^verbatim>\<open>defaultdict\<close>\<close>

text \<open>
  \<^verbatim>\<open>frame_sequences\<close> is a \<^verbatim>\<open>defaultdict\<close>, iterated with \<^verbatim>\<open>.items()\<close> in the order in which
  the keys were first inserted: an association list. \<open>defaultdict_update dflt f k d\<close> is
  \<^verbatim>\<open>d[k] = f(d[k])\<close> where a missing key is first created with the default \<open>dflt\<close>.
\<close>

type_synonym group_key = "string \<times> string"

fun defaultdict_update :: "'v \<Rightarrow> ('v \<Rightarrow> 'v) \<Rightarrow> 'k \<Rightarrow> ('k \<times> 'v) list \<Rightarrow> ('k \<times> 'v) list" where
  "defaultdict_update dflt f k [] = [(k, f dflt)]"
| "defaultdict_update dflt f k ((k', v) # d) =
     (if k' = k then (k', f v) # d else (k', v) # defaultdict_update dflt f k d)"

definition sequence_line :: "string \<Rightarrow> group_key \<Rightarrow> string" where
  "sequence_line indent k = indent @ fst k @ ''[image sequence].'' @ snd k"

subsection \<open>First variant: the file renderers\<close>

text \<open>
  The first loop of \<^verbatim>\<open>format_image_sequences\<close>: each name goes into the group of its
  (base, extension), as the frame number \<^verbatim>\<open>int(frame)\<close> in a set, or into \<^verbatim>\<open>other_files\<close>.
\<close>

fun classify_v1 :: "string list \<Rightarrow> (group_key \<times> nat set) list \<times> string list
    \<Rightarrow> (group_key \<times> nat set) list \<times> string list" where
  "classify_v1 [] st = st"
| "classify_v1 (filename # files) (frame_sequences, other_files) =
     (case pattern_match filename of
        Some (base, frame, ext) \<Rightarrow>
          classify_v1 files
            (defaultdict_update {} (insert (int_of_digits frame)) (base, ext) frame_sequences,
             other_files)
      | None \<Rightarrow> classify_v1 files (frame_sequences, other_files @ [filename]))"

definition format_image_sequences_v1 :: "string list \<Rightarrow> string \<Rightarrow> string list \<Rightarrow> string list" where
  "format_image_sequences_v1 files indent output_lines =
     (let (frame_sequences, other_files) = classify_v1 files ([], []);
          output_lines = fold (\<lambda>(k, _) out. out @ [sequence_line indent k])
                           frame_sequences output_lines
      in fold (\<lambda>filename out. out @ [indent @ filename]) other_files output_lines)"

definition list_all_files_func_v1 :: "string list \<Rightarrow> string \<Rightarrow> string list \<Rightarrow> string list" where
  "list_all_files_func_v1 files indent output_lines =
     fold (\<lambda>filename out. out @ [indent @ filename]) files output_lines"

subsection \<open>Second variant: archives and the file renderers\<close>

text \<open>
  An uncaught exception ends the process; it is the \<open>Inl\<close> of a result, and the lines
  collected so far are lost with the process.

  What \<^verbatim>\<open>zipfile.ZipFile(full_path, 'r')\<close> does with a file is data of the file system:
  it opens an archive with the member names of \<^verbatim>\<open>infolist()\<close>, or it raises. For contents
  that are not a valid archive the library raises \<^verbatim>\<open>BadZipFile\<close> in most cases (no end
  record, a bad magic number, a truncated directory), but not in all: a member name that
  is not valid UTF-8 raises \<^verbatim>\<open>UnicodeDecodeError\<close>, a version that the library does not
  support raises \<^verbatim>\<open>NotImplementedError\<close>. A file that cannot be opened raises an
  operating system error. The parameter \<^verbatim>\<open>root_path\<close> of the renderers is only used to
  open archives of that directory, so in the model it is the function from a file name
  of the directory to that outcome.
\<close>

datatype exn = FileNotFoundError | PermissionError | NotADirectoryError | IsADirectoryError
  | UnicodeDecodeError | NotImplementedError

datatype zip_open = ZipFile "string list" | BadZipFile | ZipRaises exn

type_synonym zip_dir = "string \<Rightarrow> zip_open"

definition list_file_or_zip :: "string \<Rightarrow> string \<Rightarrow> string list \<Rightarrow> zip_dir \<Rightarrow> exn + string list" where
  "list_file_or_zip filename indent output_lines root_path =
     (if endswith filename ''.zip'' then
        (case root_path filename of
           ZipFile infolist \<Rightarrow>
             Inr (fold (\<lambda>zip_info out. out @ [indent @ ''  '' @ zip_info]) infolist
                    (output_lines @ [indent @ filename @ '' [ZIP Contents]:'']))
         | BadZipFile \<Rightarrow> Inr (output_lines @ [indent @ filename @ '' [Corrupted ZIP]''])
         | ZipRaises e \<Rightarrow> Inl e)
      else Inr (output_lines @ [indent @ filename]))"

text \<open>The loop \<^verbatim>\<open>for filename in ...: list_file_or_zip(filename, indent, output_lines, root_path)\<close>.\<close>

fun list_all_files_func_v2 :: "string list \<Rightarrow> string \<Rightarrow> string list \<Rightarrow> zip_dir \<Rightarrow> exn + string list" where
  "list_all_files_func_v2 [] indent output_lines root_path = Inr output_lines"
| "list_all_files_func_v2 (filename # files) indent output_lines root_path =
     (case list_file_or_zip filename indent output_lines root_path of
        Inl e \<Rightarrow> Inl e
      | Inr out \<Rightarrow> list_all_files_func_v2 files indent out root_path)"

fun classify_v2 :: "string list \<Rightarrow> (group_key \<times> string list) list \<times> string list
    \<Rightarrow> (group_key \<times> string list) list \<times> string list" where
  "classify_v2 [] st = st"
| "classify_v2 (filename # files) (frame_sequences, other_files) =
     (case pattern_match filename of
        Some (base, frame, ext) \<Rightarrow>
          classify_v2 files
            (defaultdict_update [] (\<lambda>frames. frames @ [filename]) (base, ext) frame_sequences,
             other_files)
      | None \<Rightarrow> classify_v2 files (frame_sequences, other_files @ [filename]))"

text \<open>
  The second loop: a group of two or more names gives one condensed line, the name of a
  group of one is added to \<^verbatim>\<open>other_files\<close>.
\<close>

fun condense_v2 :: "(group_key \<times> string list) list \<Rightarrow> string \<Rightarrow> string list \<times> string list
    \<Rightarrow> string list \<times> string list" where
  "condense_v2 [] indent st = st"
| "condense_v2 ((k, frames) # items) indent (output_lines, other_files) =
     (if length frames > 1
      then condense_v2 items indent (output_lines @ [sequence_line indent k], other_files)
      else condense_v2 items indent (output_lines, other_files @ frames))"

text \<open>
  The last loop runs over \<^verbatim>\<open>sorted(other_files)\<close> and has the body of the loop of
  \<^verbatim>\<open>list_all_files_func\<close>.
\<close>

definition format_image_sequences_v2 :: "string list \<Rightarrow> string \<Rightarrow> string list \<Rightarrow> zip_dir \<Rightarrow> exn + string list" where
  "format_image_sequences_v2 files indent output_lines root_path =
     (let (frame_sequences, other_files) = classify_v2 files ([], []);
          (output_lines, other_files) =
             condense_v2 frame_sequences indent (output_lines, other_files)
      in list_all_files_func_v2 (sort other_files) indent output_lines root_path)"

subsection \<open>The file system seen by the walk\<close>

text \<open>
  The walk reads the file system with \<^verbatim>\<open>os.listdir\<close> and \<^verbatim>\<open>os.path.isdir\<close>, and the second
  variant with \<^verbatim>\<open>zipfile.ZipFile\<close>. What these calls answer is the input of the model,
  a tree: a name that \<^verbatim>\<open>isdir\<close> denies is a \<open>File\<close> with the outcome of opening it as an
  archive; a name that \<^verbatim>\<open>isdir\<close> confirms is a \<open>Dir\<close> with its raw listing (in the order
  of \<^verbatim>\<open>os.listdir\<close>, each name with its own subtree), or it is \<open>Unlistable\<close> with the
  exception that \<^verbatim>\<open>os.listdir\<close> raises for it when the walk gets there: a directory removed
  in between raises \<^verbatim>\<open>FileNotFoundError\<close>, a directory without read permission raises
  \<^verbatim>\<open>PermissionError\<close>. The parameter \<^verbatim>\<open>root_path\<close> of the walk is the subtree at that path.
  A listing has each name once; symbolic links that form a cycle are outside the model.
\<close>

datatype node = File zip_open | Dir "(string \<times> node) list" | Unlistable exn

fun listdir :: "node \<Rightarrow> exn + (string \<times> node) list" where
  "listdir (Dir listing) = Inr listing"
| "listdir (Unlistable e) = Inl e"
| "listdir (File z) = Inl NotADirectoryError"

fun isdir :: "node \<Rightarrow> bool" where
  "isdir (File z) = False"
| "isdir (Dir listing) = True"
| "isdir (Unlistable e) = True"

text \<open>Opening \<^verbatim>\<open>os.path.join(root_path, filename)\<close> as an archive, for the files of a listing.\<close>

definition zip_dir_of :: "(string \<times> node) list \<Rightarrow> zip_dir" where
  "zip_dir_of listing filename =
     (case map_of listing filename of
        Some (File z) \<Rightarrow> z
      | Some (Dir sub) \<Rightarrow> ZipRaises IsADirectoryError
      | Some (Unlistable e) \<Rightarrow> ZipRaises IsADirectoryError
      | None \<Rightarrow> ZipRaises FileNotFoundError)"

subsection \<open>The tree walker\<close>

text \<open>
  \<^verbatim>\<open>list_directory_as_tree\<close> is the same text in both files but for two places: the
  second variant also skips \<^verbatim>\<open>file_list.pdf\<close>, and its file renderers take \<^verbatim>\<open>root_path\<close>
  and can raise. The walk is modelled once, with the variant as a parameter.
\<close>

datatype variant = V1 | V2

definition skipped :: "variant \<Rightarrow> string \<Rightarrow> bool" where
  "skipped v entry =
     (startswith entry ''.'' \<or> entry = ''.DS_Store'' \<or> entry = ''file_list.txt''
      \<or> (v = V2 \<and> entry = ''file_list.pdf''))"

text \<open>The loop that separates files and directories.\<close>

fun separate :: "variant \<Rightarrow> (string \<times> node) list \<Rightarrow> string list \<times> (string \<times> node) list
    \<Rightarrow> string list \<times> (string \<times> node) list" where
  "separate v [] st = st"
| "separate v ((entry, full_path) # entries) (files, dirs) =
     (if skipped v entry then separate v entries (files, dirs)
      else if isdir full_path then separate v entries (files, dirs @ [(entry, full_path)])
      else separate v entries (files @ [entry], dirs))"

text \<open>The last statement of the walk: the files of the level, in the chosen mode.\<close>

definition render_files :: "variant \<Rightarrow> bool \<Rightarrow> string list \<Rightarrow> string \<Rightarrow> string list \<Rightarrow> zip_dir
    \<Rightarrow> exn + string list" where
  "render_files v list_all_files files indent output_lines root_path =
     (case v of
        V1 \<Rightarrow> Inr (if list_all_files then list_all_files_func_v1 files indent output_lines
                   else format_image_sequences_v1 files indent output_lines)
      | V2 \<Rightarrow> (if list_all_files then list_all_files_func_v2 files indent output_lines root_path
               else format_image_sequences_v2 files indent output_lines root_path))"

text \<open>The measure of the recursion: the directories of a level weigh less than their parent.\<close>

definition weight :: "(string \<times> node) list \<Rightarrow> nat" where
  "weight ds = sum_list (map (\<lambda>d. Suc (size (snd d))) ds)"

lemma weight_insort_key: "weight (insort_key f x xs) = Suc (size (snd x)) + weight xs"
  by (induction xs) (auto simp: weight_def)

lemma weight_sort_key: "weight (sort_key f xs) = weight xs"
  by (induction xs) (auto simp: weight_insort_key, simp add: weight_def)

lemma weight_separate:
  "weight (snd (separate v entries (files, dirs))) \<le> weight dirs + weight entries"
  by (induction v entries "(files, dirs)" arbitrary: files dirs rule: separate.induct)
     (auto simp: weight_def)

lemma weight_Dir: "weight listing < size (Dir listing)"
  by (induction listing) (auto simp: weight_def)

function list_directory_as_tree :: "variant \<Rightarrow> node \<Rightarrow> string \<Rightarrow> string list \<Rightarrow> bool \<Rightarrow> exn + string list"
  and dirs_loop :: "variant \<Rightarrow> (string \<times> node) list \<Rightarrow> string \<Rightarrow> string list \<Rightarrow> bool \<Rightarrow> exn + string list"
  where
  "list_directory_as_tree v root_path indent output_lines list_all_files =
     (case listdir root_path of
        Inl e \<Rightarrow> (if e = FileNotFoundError then Inr output_lines else Inl e)
      | Inr listing \<Rightarrow>
          (let entries = sort_key fst listing;
               (files, dirs) = separate v entries ([], [])
           in case dirs_loop v dirs indent output_lines list_all_files of
                Inl e \<Rightarrow> Inl e
              | Inr out \<Rightarrow> render_files v list_all_files files indent out (zip_dir_of listing)))"
| "dirs_loop v [] indent output_lines list_all_files = Inr output_lines"
| "dirs_loop v ((directory, sub) # dirs) indent output_lines list_all_files =
     (case list_directory_as_tree v sub (indent @ ''  '')
             (output_lines @ [indent @ directory @ ''/'']) list_all_files of
        Inl e \<Rightarrow> Inl e
      | Inr out \<Rightarrow> dirs_loop v dirs indent out list_all_files)"
  by pat_completeness auto
termination
proof (relation "measure (\<lambda>x. case x of Inl (v, n, r) \<Rightarrow> size n | Inr (v, ds, r) \<Rightarrow> weight ds)")
  fix v :: variant and root_path :: node and ind :: string and output_lines :: "string list"
    and list_all_files :: bool and listing entries x files dirs
  assume l: "listdir root_path = Inr listing" and e: "entries = sort_key fst listing"
    and x: "x = separate v entries ([], [])" and fd: "(files, dirs) = x"
  from l have r: "root_path = Dir listing" by (cases root_path) auto
  from x fd have "dirs = snd (separate v entries ([], []))" by (metis snd_conv)
  then have "weight dirs \<le> weight [] + weight entries"
    using weight_separate[of v entries "[]" "[]"] by simp
  also have "\<dots> = weight entries" by (simp add: weight_def)
  also have "\<dots> = weight listing" by (simp add: e weight_sort_key)
  also have "\<dots> < size root_path" unfolding r by (rule weight_Dir)
  finally show "(Inr (v, dirs, ind, output_lines, list_all_files),
                 Inl (v, root_path, ind, output_lines, list_all_files))
     \<in> measure (\<lambda>x. case x of Inl (v, n, r) \<Rightarrow> size n | Inr (v, ds, r) \<Rightarrow> weight ds)"
    by simp
qed (auto simp: weight_def)

declare list_directory_as_tree.simps [simp del]

text \<open>The two lists that the separation loop builds for the level of a listing.\<close>

definition level_files :: "variant \<Rightarrow> (string \<times> node) list \<Rightarrow> string list" where
  "level_files v listing = fst (separate v (sort_key fst listing) ([], []))"

definition level_dirs :: "variant \<Rightarrow> (string \<times> node) list \<Rightarrow> (string \<times> node) list" where
  "level_dirs v listing = snd (separate v (sort_key fst listing) ([], []))"

subsection \<open>The output file\<close>

text \<open>
  \<^verbatim>\<open>os.path.join\<close> with two components, as \<^verbatim>\<open>posixpath\<close> defines it, and the format
  \<^verbatim>\<open>{counter:02d}\<close>: the decimal digits of the counter, padded with zeros to two places.
\<close>

definition path_join :: "string \<Rightarrow> string \<Rightarrow> string" where
  "path_join a b =
     (if startswith b ''/'' then b
      else if a = [] \<or> endswith a ''/'' then a @ b
      else a @ ''/'' @ b)"

definition digit_char :: "nat \<Rightarrow> char" where
  "digit_char d = ''0123456789'' ! d"

fun str_nat :: "nat \<Rightarrow> string" where
  "str_nat n = (if n < 10 then [digit_char n] else str_nat (n div 10) @ [digit_char (n mod 10)])"

declare str_nat.simps [simp del]

definition format_02d :: "nat \<Rightarrow> string" where
  "format_02d n = replicate (2 - length (str_nat n)) (CHR ''0'') @ str_nat n"

definition numbered_output_file :: "string \<Rightarrow> nat \<Rightarrow> string" where
  "numbered_output_file root_directory counter =
     path_join root_directory (''file_list-'' @ format_02d counter @ ''.txt'')"

text \<open>
  \<^verbatim>\<open>get_unique_output_file\<close> of the first variant. \<^verbatim>\<open>os.path.exists\<close> is membership in the
  set of the paths that exist. The \<^verbatim>\<open>while True\<close> loop returns only at a free name, so it
  is a partial function: \<open>None\<close> is the loop that never returns.
\<close>

partial_function (option) unique_loop :: "string set \<Rightarrow> string \<Rightarrow> nat \<Rightarrow> string option" where
  "unique_loop existing root_directory counter =
     (let new_output_file = numbered_output_file root_directory counter in
      if new_output_file \<notin> existing then Some new_output_file
      else unique_loop existing root_directory (counter + 1))"

definition get_unique_output_file :: "string set \<Rightarrow> string \<Rightarrow> string option" where
  "get_unique_output_file existing root_directory =
     (let base_output_file = path_join root_directory ''file_list.txt'' in
      if base_output_file \<notin> existing then Some base_output_file
      else unique_loop existing root_directory 2)"

text \<open>\<^verbatim>\<open>get_output_file\<close> of the second variant.\<close>

definition get_output_file :: "string \<Rightarrow> string" where
  "get_output_file root_directory = path_join root_directory ''file_list.txt''"

subsection \<open>The indentation pass\<close>

text \<open>
  \<^verbatim>\<open>adjust_indentation_in_file\<close> is the same in both files. The files on disk are a map
  from paths to their text. Reading in text mode translates \<^verbatim>\<open>\r\n\<close> and \<^verbatim>\<open>\r\<close> to \<^verbatim>\<open>\n\<close>;
  \<^verbatim>\<open>readlines\<close> cuts the text after each newline and keeps the newline in the line;
  \<^verbatim>\<open>writelines\<close> writes the lines one after the other (on POSIX, where \<^verbatim>\<open>\n\<close> is written
  as it is). Opening a path that does not exist raises \<^verbatim>\<open>FileNotFoundError\<close>.
\<close>

fun universal_newlines :: "string \<Rightarrow> string" where
  "universal_newlines [] = []"
| "universal_newlines [c] = (if c = CR then [LF] else [c])"
| "universal_newlines (c # d # cs) =
     (if c = CR \<and> d = LF then LF # universal_newlines cs
      else if c = CR then LF # universal_newlines (d # cs)
      else c # universal_newlines (d # cs))"

fun readlines :: "string \<Rightarrow> string list" where
  "readlines [] = []"
| "readlines (c # cs) =
     (if c = LF then [LF] # readlines cs
      else (case readlines cs of [] \<Rightarrow> [[c]] | l # ls \<Rightarrow> (c # l) # ls))"

definition adjust_line :: "string \<Rightarrow> string" where
  "adjust_line line = (if startswith line ''  '' then drop 2 line else line)"

definition adjust_indentation_in_file :: "string \<Rightarrow> (string \<rightharpoonup> string) \<Rightarrow> exn + (string \<rightharpoonup> string)" where
  "adjust_indentation_in_file output_file disk =
     (case disk output_file of
        None \<Rightarrow> Inl FileNotFoundError
      | Some text \<Rightarrow>
          (let lines = readlines (universal_newlines text);
               adjusted_lines = map adjust_line lines
           in Inr (disk(output_file \<mapsto> concat adjusted_lines))))"

subsection \<open>Vocabulary of the specification\<close>

text \<open>
  The shape \<^verbatim>\<open><base><4 digits>.<ext>\<close> in words: the base has no newline, the frame is
  four digits, the extension is a non-empty run of word characters, and the name ends
  there or with one newline after it.
\<close>

definition frame_shape :: "string \<Rightarrow> string \<Rightarrow> string \<Rightarrow> string \<Rightarrow> bool" where
  "frame_shape filename base frame ext =
     (LF \<notin> set base \<and> length frame = 4 \<and> list_all is_digit frame
      \<and> ext \<noteq> [] \<and> list_all is_word ext
      \<and> (filename = base @ frame @ ''.'' @ ext \<or> filename = base @ frame @ ''.'' @ ext @ [LF]))"

text \<open>
  The sequence group of a name is its (base, extension), if the name matches the
  pattern; the members of a group are the names of the file list with that group; the
  groups of a file list are listed once each, in the order in which they first occur.
  A name is condensed in the second variant when its group has two or more members.
\<close>

definition group_of :: "string \<Rightarrow> group_key option" where
  "group_of filename =
     (case pattern_match filename of Some (base, frame, ext) \<Rightarrow> Some (base, ext) | None \<Rightarrow> None)"

definition group_members :: "string list \<Rightarrow> group_key \<Rightarrow> string list" where
  "group_members files k = filter (\<lambda>f. group_of f = Some k) files"

definition group_keys :: "string list \<Rightarrow> group_key list" where
  "group_keys files = rev (remdups (rev (List.map_filter group_of files)))"

definition condensed_v2 :: "string list \<Rightarrow> string \<Rightarrow> bool" where
  "condensed_v2 files f =
     (case group_of f of None \<Rightarrow> False | Some k \<Rightarrow> length (group_members files k) > 1)"

text \<open>
  The tree without the excluded entries: at every level the entries that the walk of
  the variant skips are removed, together with what is below them.
\<close>

primrec prune :: "variant \<Rightarrow> node \<Rightarrow> node" where
  "prune v (File z) = File z"
| "prune v (Dir listing) =
     Dir (filter (\<lambda>e. \<not> skipped v (fst e)) (map (map_prod id (prune v)) listing))"
| "prune v (Unlistable e) = Unlistable e"

text \<open>
  The number of spaces at the start of a line, and the lists of lines that \<^verbatim>\<open>readlines\<close>
  returns: no line is empty, a newline occurs only as the last character of a line, and
  every line but the last ends with one.
\<close>

definition leading_spaces :: "string \<Rightarrow> nat" where
  "leading_spaces line = length (takeWhile (\<lambda>c. c = CHR '' '') line)"

fun lines_ok :: "string list \<Rightarrow> bool" where
  "lines_ok [] = True"
| "lines_ok [l] = (l \<noteq> [] \<and> LF \<notin> set (butlast l))"
| "lines_ok (l # l' # ls) = (l \<noteq> [] \<and> LF \<notin> set (butlast l) \<and> last l = LF \<and> lines_ok (l' # ls))"

section \<open>Properties\<close>

subsection \<open>The frame pattern as a shape\<close>

lemma not_word_dot: "\<not> is_word (CHR ''.'')"
  by (simp add: is_word_def is_digit_def)

lemma not_word_LF: "\<not> is_word LF"
  by (simp add: is_word_def is_digit_def LF_def)

lemma take1_eq: "take (Suc 0) xs = [c] \<longleftrightarrow> (\<exists>ys. xs = c # ys)"
  by (cases xs) auto

lemma match_tail_sound:
  assumes "match_tail s = Some (frame, ext)"
  shows "length frame = 4 \<and> list_all is_digit frame \<and> ext \<noteq> [] \<and> list_all is_word ext
         \<and> (s = frame @ ''.'' @ ext \<or> s = frame @ ''.'' @ ext @ [LF])"
proof -
  let ?rest = "drop 4 s"
  from assms have fr: "frame = take 4 s" and len: "length (take 4 s) = 4"
    and dig: "list_all is_digit (take 4 s)" and dot: "take 1 ?rest = ''.''"
    and ext: "ext = takeWhile is_word (drop 1 ?rest)" and ne: "ext \<noteq> []"
    and after: "dropWhile is_word (drop 1 ?rest) = [] \<or> dropWhile is_word (drop 1 ?rest) = [LF]"
    by (auto simp: match_tail_def Let_def split: if_splits)
  from dot have rest: "?rest = CHR ''.'' # drop 1 ?rest"
    by (cases ?rest) auto
  have s: "s = frame @ ?rest" by (simp add: fr)
  have d1: "drop 1 ?rest = ext @ dropWhile is_word (drop 1 ?rest)"
    by (simp add: ext)
  have w: "list_all is_word ext"
    unfolding ext list_all_iff by (auto dest: set_takeWhileD)
  from after show ?thesis
  proof
    assume a: "dropWhile is_word (drop 1 ?rest) = []"
    with d1 have "drop 1 ?rest = ext" by (metis append_Nil2)
    with rest have "?rest = ''.'' @ ext" by simp
    with s have "s = frame @ ''.'' @ ext" by simp
    with fr len dig ne w show ?thesis by simp
  next
    assume a: "dropWhile is_word (drop 1 ?rest) = [LF]"
    with d1 have "drop 1 ?rest = ext @ [LF]" by metis
    with rest have "?rest = ''.'' @ ext @ [LF]" by simp
    with s have "s = frame @ ''.'' @ ext @ [LF]" by simp
    with fr len dig ne w show ?thesis by simp
  qed
qed

lemma match_tail_complete:
  assumes "length frame = 4" "list_all is_digit frame" "ext \<noteq> []" "list_all is_word ext"
    and "nl = [] \<or> nl = [LF]"
  shows "match_tail (frame @ ''.'' @ ext @ nl) = Some (frame, ext)"
proof -
  have tw: "takeWhile is_word (ext @ nl) = ext" "dropWhile is_word (ext @ nl) = nl"
    using assms(4,5) not_word_LF by (auto simp: list_all_iff takeWhile_append2 dropWhile_append2)
  show ?thesis
    using assms tw by (auto simp: match_tail_def Let_def)
qed

lemma match_tail_no_later_dot:
  assumes "match_tail s = Some (frame, ext)"
  shows "CHR ''.'' \<notin> set (drop 5 s)"
proof -
  from match_tail_sound[OF assms] have len: "length frame = 4" and w: "list_all is_word ext"
    and s: "s = frame @ ''.'' @ ext \<or> s = frame @ ''.'' @ ext @ [LF]" by auto
  from s len have "drop 5 s = ext \<or> drop 5 s = ext @ [LF]" by auto
  with w not_word_dot show ?thesis by (auto simp: list_all_iff LF_def)
qed

lemma match_tail_before_base:
  assumes "length frame = 4"
  shows "match_tail ((c # p) @ frame @ ''.'' @ rest) = None"
proof (cases "match_tail ((c # p) @ frame @ ''.'' @ rest)")
  case None then show ?thesis .
next
  case (Some r)
  obtain fr e where r: "r = (fr, e)" by (cases r)
  from Some r have "CHR ''.'' \<notin> set (drop 5 ((c # p) @ frame @ ''.'' @ rest))"
    using match_tail_no_later_dot by blast
  moreover have "drop 5 ((c # p) @ frame @ ''.'' @ rest) = drop 4 (p @ frame) @ ''.'' @ rest"
    using assms by simp
  ultimately show ?thesis by simp
qed

lemma pattern_match_from_complete:
  assumes "length frame = 4" "list_all is_digit frame" "ext \<noteq> []" "list_all is_word ext"
    and "nl = [] \<or> nl = [LF]" and "LF \<notin> set p"
  shows "pattern_match_from b (p @ frame @ ''.'' @ ext @ nl) = Some (b @ p, frame, ext)"
  using assms(6)
proof (induction p arbitrary: b)
  case Nil
  have "frame @ ''.'' @ ext @ nl \<noteq> []" using assms(1) by auto
  then obtain c cs where eq: "frame @ ''.'' @ ext @ nl = c # cs" by (cases "frame @ ''.'' @ ext @ nl") auto
  have "match_tail (c # cs) = Some (frame, ext)"
    using match_tail_complete[OF assms(1-5)] eq by simp
  then show ?case using eq by simp
next
  case (Cons c p)
  have "match_tail ((c # p) @ frame @ ''.'' @ (ext @ nl)) = None"
    by (rule match_tail_before_base[OF assms(1)])
  with Cons show ?case by auto
qed

lemma pattern_match_from_sound:
  "pattern_match_from b s = Some (base, frame, ext) \<Longrightarrow>
   \<exists>p. base = b @ p \<and> LF \<notin> set p \<and> length frame = 4 \<and> list_all is_digit frame \<and> ext \<noteq> []
      \<and> list_all is_word ext \<and> (s = p @ frame @ ''.'' @ ext \<or> s = p @ frame @ ''.'' @ ext @ [LF])"
proof (induction b s rule: pattern_match_from.induct)
  case (1 base')
  then show ?case by (simp add: match_tail_def)
next
  case (2 base' c cs)
  show ?case
  proof (cases "match_tail (c # cs)")
    case None
    with 2(2) have c: "c \<noteq> LF" and r: "pattern_match_from (base' @ [c]) cs = Some (base, frame, ext)"
      by (auto split: if_splits)
    from 2(1)[OF None c r] obtain p where "base = (base' @ [c]) @ p" "LF \<notin> set p" "length frame = 4"
      "list_all is_digit frame" "ext \<noteq> []" "list_all is_word ext"
      "cs = p @ frame @ ''.'' @ ext \<or> cs = p @ frame @ ''.'' @ ext @ [LF]" by blast
    with c show ?thesis by (intro exI[of _ "c # p"]) auto
  next
    case (Some r)
    obtain fr e where r: "r = (fr, e)" by (cases r)
    with Some 2(2) have "base = base'" "fr = frame" "e = ext" by auto
    with Some r match_tail_sound[of "c # cs" frame ext] show ?thesis
      by (intro exI[of _ "[]"]) auto
  qed
qed

subsection \<open>Groups of the file list and the dictionary of the code\<close>

lemma fold_append_lines: "fold (\<lambda>x out. out @ [g x]) xs out = out @ map g xs"
  by (induction xs arbitrary: out) auto

lemma group_of_None: "group_of f = None \<longleftrightarrow> pattern_match f = None"
  by (auto simp: group_of_def split: option.splits)

lemma map_filter_snoc:
  "List.map_filter g (xs @ [x]) = List.map_filter g xs @ (case g x of None \<Rightarrow> [] | Some y \<Rightarrow> [y])"
  by (simp add: List.map_filter_def split: option.splits)

lemma set_map_filter_eq: "set (List.map_filter g xs) = {y. \<exists>x \<in> set xs. g x = Some y}"
  by (induction xs) (auto simp: map_filter_simps split: option.splits)

lemma set_group_keys: "set (group_keys files) = {k. \<exists>f \<in> set files. group_of f = Some k}"
  by (simp add: group_keys_def set_map_filter_eq)

lemma distinct_group_keys: "distinct (group_keys files)"
  by (simp add: group_keys_def)

lemma group_keys_snoc:
  "group_keys (files @ [f]) =
     (case group_of f of
        None \<Rightarrow> group_keys files
      | Some k \<Rightarrow> if k \<in> set (group_keys files) then group_keys files else group_keys files @ [k])"
  by (auto simp: group_keys_def map_filter_snoc split: option.splits)

lemma group_keys_Nil: "group_keys [] = []"
  by (simp add: group_keys_def List.map_filter_def)

lemma group_members_snoc:
  "group_members (files @ [f]) k = group_members files k @ (if group_of f = Some k then [f] else [])"
  by (simp add: group_members_def)

lemma group_members_empty: "k \<notin> set (group_keys files) \<Longrightarrow> group_members files k = []"
  by (auto simp: set_group_keys group_members_def filter_empty_conv)


lemma classify_v1_append:
  "classify_v1 (xs @ ys) st = classify_v1 ys (classify_v1 xs st)"
  by (induction xs st rule: classify_v1.induct) (auto split: option.splits)

lemma classify_v2_append:
  "classify_v2 (xs @ ys) st = classify_v2 ys (classify_v2 xs st)"
  by (induction xs st rule: classify_v2.induct) (auto split: option.splits)

lemma keys_defaultdict_update:
  "map fst (defaultdict_update dflt h k d) = (if k \<in> set (map fst d) then map fst d else map fst d @ [k])"
proof (induction d)
  case Nil
  show ?case by simp
next
  case (Cons p d)
  obtain k' v where p: "p = (k', v)" by (cases p)
  show ?case using Cons by (cases "k' = k") (simp_all add: p)
qed

lemma classify_v1_result:
  "map fst (fst (classify_v1 files ([], []))) = group_keys files
   \<and> snd (classify_v1 files ([], [])) = filter (\<lambda>f. pattern_match f = None) files"
proof (induction files rule: rev_induct)
  case Nil
  show ?case by (simp add: group_keys_Nil)
next
  case (snoc f files)
  obtain d o' where st: "classify_v1 files ([], []) = (d, o')" by (cases "classify_v1 files ([], [])")
  with snoc have d: "map fst d = group_keys files" and o: "o' = filter (\<lambda>f. pattern_match f = None) files"
    by auto
  show ?case
  proof (cases "pattern_match f")
    case None
    then show ?thesis using st d o
      by (simp add: classify_v1_append group_keys_snoc group_of_def)
  next
    case (Some r)
    obtain b fr e where r: "r = (b, fr, e)" by (cases r)
    show ?thesis using st d o Some r
      by (simp add: classify_v1_append group_keys_snoc group_of_def keys_defaultdict_update)
  qed
qed

lemma defaultdict_update_tabulate:
  assumes "distinct ks"
  shows "defaultdict_update dflt h k (map (\<lambda>x. (x, g x)) ks) =
         map (\<lambda>x. (x, if x = k then h (if k \<in> set ks then g k else dflt) else g x))
             (if k \<in> set ks then ks else ks @ [k])"
  using assms by (induction ks) auto

lemma classify_v2_result:
  "classify_v2 files ([], []) =
     (map (\<lambda>k. (k, group_members files k)) (group_keys files),
      filter (\<lambda>f. pattern_match f = None) files)"
proof (induction files rule: rev_induct)
  case Nil
  show ?case by (simp add: group_keys_Nil)
next
  case (snoc f files)
  show ?case
  proof (cases "pattern_match f")
    case None
    then have "group_of f = None" by (simp add: group_of_def)
    then show ?thesis using snoc None
      by (simp add: classify_v2_append group_keys_snoc group_members_snoc)
  next
    case (Some r)
    obtain b fr e where r: "r = (b, fr, e)" by (cases r)
    with Some have g: "group_of f = Some (b, e)" by (simp add: group_of_def)
    have "defaultdict_update [] (\<lambda>frames. frames @ [f]) (b, e)
            (map (\<lambda>k. (k, group_members files k)) (group_keys files))
          = map (\<lambda>k. (k, group_members (files @ [f]) k)) (group_keys (files @ [f]))"
      by (subst defaultdict_update_tabulate[OF distinct_group_keys])
         (auto simp: group_keys_snoc g group_members_snoc group_members_empty)
    then show ?thesis using snoc Some r
      by (simp add: classify_v2_append)
  qed
qed

lemma condense_v2_tabulate:
  "condense_v2 (map (\<lambda>k. (k, g k)) ks) indent (out, others) =
     (out @ map (sequence_line indent) (filter (\<lambda>k. length (g k) > 1) ks),
      others @ concat (map g (filter (\<lambda>k. \<not> length (g k) > 1) ks)))"
  by (induction ks arbitrary: out others) auto

lemma format_image_sequences_v1_eq:
  "format_image_sequences_v1 files indent out =
     out @ map (sequence_line indent) (group_keys files)
         @ map (\<lambda>f. indent @ f) (filter (\<lambda>f. group_of f = None) files)"
proof -
  obtain d o' where st: "classify_v1 files ([], []) = (d, o')" by (cases "classify_v1 files ([], [])")
  with classify_v1_result[of files] have d: "map fst d = group_keys files"
    and o: "o' = filter (\<lambda>f. pattern_match f = None) files" by auto
  have "fold (\<lambda>(k, _) out. out @ [sequence_line indent k]) d out = out @ map (sequence_line indent) (map fst d)"
    using fold_append_lines[of "\<lambda>x. sequence_line indent (fst x)" d out]
    by (simp add: case_prod_unfold comp_def)
  then show ?thesis
    by (simp add: format_image_sequences_v1_def st fold_append_lines d o group_of_None)
qed

subsection \<open>The file renderers of the second variant\<close>

lemma mset_filter_disjoint:
  assumes "\<And>x. x \<in> set xs \<Longrightarrow> \<not> (P x \<and> Q x)"
  shows "mset (filter P xs) + mset (filter Q xs) = mset (filter (\<lambda>x. P x \<or> Q x) xs)"
  using assms by (induction xs) auto

lemma mset_concat_group_members:
  assumes "distinct ks"
  shows "mset (concat (map (group_members files) ks))
         = mset (filter (\<lambda>f. \<exists>k \<in> set ks. group_of f = Some k) files)"
  using assms
proof (induction ks)
  case Nil
  show ?case by simp
next
  case (Cons k ks)
  have "mset (group_members files k) + mset (filter (\<lambda>f. \<exists>k \<in> set ks. group_of f = Some k) files)
        = mset (filter (\<lambda>f. group_of f = Some k \<or> (\<exists>k \<in> set ks. group_of f = Some k)) files)"
    unfolding group_members_def using Cons.prems by (intro mset_filter_disjoint) auto
  with Cons show ?case by simp
qed

lemma sort_cong_mset: "mset xs = mset ys \<Longrightarrow> sort xs = sort (ys :: string list)"
  by (rule properties_for_sort) simp_all

lemma plain_files_v2:
  "sort (filter (\<lambda>f. pattern_match f = None) files
         @ concat (map (group_members files)
                     (filter (\<lambda>k. \<not> length (group_members files k) > 1) (group_keys files))))
   = sort (filter (\<lambda>f. \<not> condensed_v2 files f) files)"
proof (rule sort_cong_mset)
  let ?ks = "filter (\<lambda>k. \<not> length (group_members files k) > 1) (group_keys files)"
  have d: "distinct ?ks" by (simp add: distinct_group_keys)
  have "mset (filter (\<lambda>f. pattern_match f = None) files) + mset (concat (map (group_members files) ?ks))
        = mset (filter (\<lambda>f. pattern_match f = None) files)
          + mset (filter (\<lambda>f. \<exists>k \<in> set ?ks. group_of f = Some k) files)"
    by (simp only: mset_concat_group_members[OF d])
  also have "\<dots> = mset (filter (\<lambda>f. pattern_match f = None \<or> (\<exists>k \<in> set ?ks. group_of f = Some k)) files)"
    by (intro mset_filter_disjoint) (auto simp: group_of_def split: option.splits)
  also have "filter (\<lambda>f. pattern_match f = None \<or> (\<exists>k \<in> set ?ks. group_of f = Some k)) files
             = filter (\<lambda>f. \<not> condensed_v2 files f) files"
    by (rule filter_cong)
       (auto simp: condensed_v2_def set_group_keys group_of_None[symmetric] split: option.splits)
  finally show "mset (filter (\<lambda>f. pattern_match f = None) files @ concat (map (group_members files) ?ks))
                = mset (filter (\<lambda>f. \<not> condensed_v2 files f) files)"
    by simp
qed

lemma format_image_sequences_v2_eq:
  "format_image_sequences_v2 files indent out rp =
     list_all_files_func_v2 (sort (filter (\<lambda>f. \<not> condensed_v2 files f) files)) indent
       (out @ map (sequence_line indent)
                (filter (\<lambda>k. length (group_members files k) > 1) (group_keys files))) rp"
  by (simp only: format_image_sequences_v2_def classify_v2_result condense_v2_tabulate
      Let_def prod.case plain_files_v2)

lemma list_file_or_zip_acc:
  "list_file_or_zip f indent out rp = map_sum id ((@) out) (list_file_or_zip f indent [] rp)"
  by (simp add: list_file_or_zip_def fold_append_lines split: zip_open.splits)

lemma list_all_files_func_v2_acc:
  "list_all_files_func_v2 fs indent out rp
   = map_sum id ((@) out) (list_all_files_func_v2 fs indent [] rp)"
proof (induction fs arbitrary: out)
  case Nil
  show ?case by simp
next
  case (Cons f fs)
  show ?case
  proof (cases "list_file_or_zip f indent [] rp")
    case (Inl e)
    then show ?thesis using list_file_or_zip_acc[of f indent out rp] by simp
  next
    case (Inr ls)
    then have "list_file_or_zip f indent out rp = Inr (out @ ls)"
      using list_file_or_zip_acc[of f indent out rp] by simp
    with Inr show ?thesis
      using Cons[of "out @ ls"] Cons[of ls]
      by (cases "list_all_files_func_v2 fs indent [] rp") auto
  qed
qed

lemma list_all_files_func_v2_cong:
  assumes "\<And>f. f \<in> set fs \<Longrightarrow> rp f = rp' f"
  shows "list_all_files_func_v2 fs indent out rp = list_all_files_func_v2 fs indent out rp'"
  using assms
proof (induction fs arbitrary: out)
  case Nil
  show ?case by simp
next
  case (Cons f fs)
  have "list_file_or_zip f indent out rp = list_file_or_zip f indent out rp'"
    using Cons.prems[of f] by (simp add: list_file_or_zip_def)
  with Cons show ?case by (auto split: sum.splits)
qed

lemma format_image_sequences_v2_cong:
  assumes "\<And>f. f \<in> set files \<Longrightarrow> \<not> condensed_v2 files f \<Longrightarrow> rp f = rp' f"
  shows "format_image_sequences_v2 files indent out rp = format_image_sequences_v2 files indent out rp'"
  unfolding format_image_sequences_v2_eq
  by (rule list_all_files_func_v2_cong) (use assms in auto)

lemma format_image_sequences_v2_acc:
  "format_image_sequences_v2 files indent out rp
   = map_sum id ((@) out) (format_image_sequences_v2 files indent [] rp)"
  unfolding format_image_sequences_v2_eq
  by (subst list_all_files_func_v2_acc, subst (2) list_all_files_func_v2_acc)
     (cases "list_all_files_func_v2 (sort (filter (\<lambda>f. \<not> condensed_v2 files f) files)) indent [] rp", auto)

lemma list_all_files_func_v1_eq:
  "list_all_files_func_v1 files indent out = out @ map (\<lambda>f. indent @ f) files"
  by (simp add: list_all_files_func_v1_def fold_append_lines)

lemma render_files_acc:
  "render_files v laf files indent out rp = map_sum id ((@) out) (render_files v laf files indent [] rp)"
proof (cases v)
  case V1
  then show ?thesis
    by (simp add: render_files_def list_all_files_func_v1_eq format_image_sequences_v1_eq)
next
  case V2
  then show ?thesis
    using format_image_sequences_v2_acc[of files indent out rp]
          list_all_files_func_v2_acc[of files indent out rp]
    by (simp add: render_files_def)
qed

subsection \<open>The walk\<close>

lemma separate_eq:
  "separate v entries (files, dirs) =
     (files @ map fst (filter (\<lambda>e. \<not> skipped v (fst e) \<and> \<not> isdir (snd e)) entries),
      dirs @ filter (\<lambda>e. \<not> skipped v (fst e) \<and> isdir (snd e)) entries)"
  by (induction v entries "(files, dirs)" arbitrary: files dirs rule: separate.induct) auto

lemma tree_Dir:
  "list_directory_as_tree v (Dir listing) indent out laf =
     (case dirs_loop v (level_dirs v listing) indent out laf of
        Inl e \<Rightarrow> Inl e
      | Inr out' \<Rightarrow> render_files v laf (level_files v listing) indent out' (zip_dir_of listing))"
  unfolding level_dirs_def level_files_def
  by (simp add: list_directory_as_tree.simps Let_def case_prod_unfold)

lemma tree_Unlistable:
  "list_directory_as_tree v (Unlistable e) indent out laf =
     (if e = FileNotFoundError then Inr out else Inl e)"
  by (simp add: list_directory_as_tree.simps)

lemma tree_File:
  "list_directory_as_tree v (File z) indent out laf = Inl NotADirectoryError"
  by (simp add: list_directory_as_tree.simps)

lemma walk_acc:
  fixes dummy dummy' :: "string list"
  shows "\<forall>out. list_directory_as_tree v n indent out laf
          = map_sum id ((@) out) (list_directory_as_tree v n indent [] laf)"
  and "\<forall>out. dirs_loop v ds indent' out laf'
          = map_sum id ((@) out) (dirs_loop v ds indent' [] laf')"
proof (induction v n indent dummy laf and v ds indent' dummy' laf'
    rule: list_directory_as_tree_dirs_loop.induct)
  case (1 v root_path indent output_lines list_all_files)
  show ?case
  proof (cases root_path)
    case (File z)
    then show ?thesis by (simp add: tree_File)
  next
    case (Unlistable e)
    then show ?thesis by (simp add: tree_Unlistable)
  next
    case (Dir listing)
    have ih: "\<forall>out. dirs_loop v (level_dirs v listing) indent out list_all_files
          = map_sum id ((@) out) (dirs_loop v (level_dirs v listing) indent [] list_all_files)"
      by (rule 1[of listing "sort_key fst listing" "separate v (sort_key fst listing) ([], [])"
            "level_files v listing" "level_dirs v listing"])
         (simp_all add: Dir level_dirs_def level_files_def)
    show ?thesis
    proof (intro allI)
      fix out
      show "list_directory_as_tree v root_path indent out list_all_files
          = map_sum id ((@) out) (list_directory_as_tree v root_path indent [] list_all_files)"
      proof (cases "dirs_loop v (level_dirs v listing) indent [] list_all_files")
        case (Inl e)
        with ih[rule_format, of out] show ?thesis by (simp add: Dir tree_Dir)
      next
        case (Inr D)
        with ih[rule_format, of out]
        have o: "dirs_loop v (level_dirs v listing) indent out list_all_files = Inr (out @ D)"
          by simp
        show ?thesis
          using render_files_acc[of v list_all_files "level_files v listing" indent "out @ D" "zip_dir_of listing"]
                render_files_acc[of v list_all_files "level_files v listing" indent D "zip_dir_of listing"]
          by (cases "render_files v list_all_files (level_files v listing) indent [] (zip_dir_of listing)")
             (simp_all add: Dir tree_Dir Inr o)
      qed
    qed
  qed
next
  case (2 v indent output_lines list_all_files)
  show ?case by simp
next
  case (3 v directory sub dirs indent output_lines list_all_files)
  let ?line = "indent @ directory @ ''/''"
  have p: "\<forall>out. list_directory_as_tree v sub (indent @ ''  '') out list_all_files
          = map_sum id ((@) out) (list_directory_as_tree v sub (indent @ ''  '') [] list_all_files)"
    by (rule 3(1))
  show ?case
  proof (cases "list_directory_as_tree v sub (indent @ ''  '') [] list_all_files")
    case (Inl e)
    have "list_directory_as_tree v sub (indent @ ''  '') out list_all_files = Inl e" for out
      using p[rule_format, of out] Inl by simp
    then show ?thesis by simp
  next
    case (Inr S)
    have s: "list_directory_as_tree v sub (indent @ ''  '') out list_all_files = Inr (out @ S)"
      for out
      using p[rule_format, of out] Inr by simp
    have q: "\<forall>out. dirs_loop v dirs indent out list_all_files
          = map_sum id ((@) out) (dirs_loop v dirs indent [] list_all_files)"
      by (rule 3(2)[OF s])
    show ?thesis
    proof (intro allI)
      fix out
      from q have "dirs_loop v dirs indent ((out @ [?line]) @ S) list_all_files
          = map_sum id ((@) ((out @ [?line]) @ S)) (dirs_loop v dirs indent [] list_all_files)"
        by blast
      moreover from q have "dirs_loop v dirs indent ([?line] @ S) list_all_files
          = map_sum id ((@) ([?line] @ S)) (dirs_loop v dirs indent [] list_all_files)"
        by blast
      ultimately show "dirs_loop v ((directory, sub) # dirs) indent out list_all_files
          = map_sum id ((@) out) (dirs_loop v ((directory, sub) # dirs) indent [] list_all_files)"
        using s[of "out @ [?line]"] s[of "[?line]"]
        by (cases "dirs_loop v dirs indent [] list_all_files") simp_all
    qed
  qed
qed

lemma tree_acc:
  "list_directory_as_tree v n indent out laf
   = map_sum id ((@) out) (list_directory_as_tree v n indent [] laf)"
  using walk_acc(1) by blast

lemma dirs_loop_acc:
  "dirs_loop v ds indent out laf = map_sum id ((@) out) (dirs_loop v ds indent [] laf)"
  using walk_acc(2) by blast

lemma level_dirs_eq:
  "level_dirs v listing = filter (\<lambda>e. \<not> skipped v (fst e) \<and> isdir (snd e)) (sort_key fst listing)"
  by (simp add: level_dirs_def separate_eq)

lemma level_files_eq:
  "level_files v listing
   = map fst (filter (\<lambda>e. \<not> skipped v (fst e) \<and> \<not> isdir (snd e)) (sort_key fst listing))"
  by (simp add: level_files_def separate_eq)

lemma tree_Dir_lines:
  "list_directory_as_tree v (Dir listing) indent out laf =
     (case dirs_loop v (level_dirs v listing) indent [] laf of
        Inl e \<Rightarrow> Inl e
      | Inr dir_lines \<Rightarrow>
          (case render_files v laf (level_files v listing) indent [] (zip_dir_of listing) of
             Inl e \<Rightarrow> Inl e
           | Inr file_lines \<Rightarrow> Inr (out @ dir_lines @ file_lines)))"
proof (cases "dirs_loop v (level_dirs v listing) indent [] laf")
  case (Inl e)
  then show ?thesis
    using dirs_loop_acc[of v "level_dirs v listing" indent out laf] by (simp add: tree_Dir)
next
  case (Inr D)
  then have o: "dirs_loop v (level_dirs v listing) indent out laf = Inr (out @ D)"
    using dirs_loop_acc[of v "level_dirs v listing" indent out laf] by simp
  show ?thesis
    using render_files_acc[of v laf "level_files v listing" indent "out @ D" "zip_dir_of listing"]
    by (cases "render_files v laf (level_files v listing) indent [] (zip_dir_of listing)")
       (simp_all add: tree_Dir Inr o)
qed

lemma dirs_loop_Cons_lines:
  "dirs_loop v ((directory, sub) # dirs) indent [] laf =
     (case list_directory_as_tree v sub (indent @ ''  '') [] laf of
        Inl e \<Rightarrow> Inl e
      | Inr sub_lines \<Rightarrow>
          (case dirs_loop v dirs indent [] laf of
             Inl e \<Rightarrow> Inl e
           | Inr rest \<Rightarrow> Inr ((indent @ directory @ ''/'') # sub_lines @ rest)))"
proof (cases "list_directory_as_tree v sub (indent @ ''  '') [] laf")
  case (Inl e)
  then show ?thesis
    using tree_acc[of v sub "indent @ ''  ''" "[indent @ directory @ ''/'']" laf] by simp
next
  case (Inr S)
  then have s: "list_directory_as_tree v sub (indent @ ''  '') [indent @ directory @ ''/''] laf
                = Inr ((indent @ directory @ ''/'') # S)"
    using tree_acc[of v sub "indent @ ''  ''" "[indent @ directory @ ''/'']" laf] by simp
  show ?thesis
    using dirs_loop_acc[of v dirs indent "(indent @ directory @ ''/'') # S" laf]
    by (cases "dirs_loop v dirs indent [] laf") (simp_all add: Inr s)
qed

lemma insort_key_map_fst:
  assumes "\<And>x. fst (h x) = fst x"
  shows "insort_key fst (h x) (map h ys) = map h (insort_key fst x ys)"
  by (induction ys) (auto simp: assms)

lemma sort_key_map_fst:
  assumes "\<And>x. fst (h x) = fst x"
  shows "sort_key fst (map h xs) = map h (sort_key fst xs)"
  by (induction xs) (auto simp: insort_key_map_fst[OF assms])

lemma sort_key_map_prod:
  "sort_key fst (map (map_prod id g) xs) = map (map_prod id g) (sort_key fst xs)"
  by (rule sort_key_map_fst) simp

lemma isdir_prune: "isdir (prune v n) = isdir n"
  by (cases n) auto

lemma filter_dirs_prune:
  "filter (\<lambda>e. \<not> skipped v (fst e) \<and> isdir (snd e))
     (filter (\<lambda>e. \<not> skipped v (fst e)) (map (map_prod id (prune v)) xs))
   = map (map_prod id (prune v)) (filter (\<lambda>e. \<not> skipped v (fst e) \<and> isdir (snd e)) xs)"
  by (induction xs) (auto simp: isdir_prune)

lemma filter_files_prune:
  "map fst (filter (\<lambda>e. \<not> skipped v (fst e) \<and> \<not> isdir (snd e))
     (filter (\<lambda>e. \<not> skipped v (fst e)) (map (map_prod id (prune v)) xs)))
   = map fst (filter (\<lambda>e. \<not> skipped v (fst e) \<and> \<not> isdir (snd e)) xs)"
  by (induction xs) (auto simp: isdir_prune)

lemma level_dirs_prune:
  "level_dirs v (filter (\<lambda>e. \<not> skipped v (fst e)) (map (map_prod id (prune v)) listing))
   = map (map_prod id (prune v)) (level_dirs v listing)"
  by (simp only: level_dirs_eq filter_sort[symmetric] sort_key_map_prod filter_dirs_prune)

lemma level_files_prune:
  "level_files v (filter (\<lambda>e. \<not> skipped v (fst e)) (map (map_prod id (prune v)) listing))
   = level_files v listing"
  by (simp only: level_files_eq filter_sort[symmetric] sort_key_map_prod filter_files_prune)

lemma map_of_filter_not_skipped:
  "map_of (filter (\<lambda>e. \<not> skipped v (fst e)) xs) k = (if skipped v k then None else map_of xs k)"
  by (induction xs) auto

lemma map_of_map_prod: "map_of (map (map_prod id g) xs) k = map_option g (map_of xs k)"
  by (induction xs) auto

lemma zip_dir_of_prune:
  assumes "\<not> skipped v f"
  shows "zip_dir_of (filter (\<lambda>e. \<not> skipped v (fst e)) (map (map_prod id (prune v)) listing)) f
         = zip_dir_of listing f"
proof (cases "map_of listing f")
  case None
  then show ?thesis using assms by (simp add: zip_dir_of_def map_of_filter_not_skipped map_of_map_prod)
next
  case (Some n)
  then show ?thesis using assms
    by (cases n) (simp_all add: zip_dir_of_def map_of_filter_not_skipped map_of_map_prod)
qed

lemma level_files_not_skipped: "f \<in> set (level_files v listing) \<Longrightarrow> \<not> skipped v f"
  by (auto simp: level_files_eq)

lemma level_dirs_not_skipped: "e \<in> set (level_dirs v listing) \<Longrightarrow> \<not> skipped v (fst e)"
  by (auto simp: level_dirs_eq)

lemma render_files_cong:
  assumes "\<And>f. f \<in> set files \<Longrightarrow> rp f = rp' f"
  shows "render_files v laf files indent out rp = render_files v laf files indent out rp'"
proof (cases v)
  case V1
  then show ?thesis by (simp add: render_files_def)
next
  case V2
  then show ?thesis
    using list_all_files_func_v2_cong[of files rp rp' indent out]
      format_image_sequences_v2_cong[of files rp rp' indent out] assms
    by (simp add: render_files_def)
qed

lemma walk_prune:
  fixes out out' :: "string list"
  shows "list_directory_as_tree v (prune v n) indent out laf
         = list_directory_as_tree v n indent out laf"
  and "dirs_loop v (map (map_prod id (prune v)) ds) indent' out' laf'
       = dirs_loop v ds indent' out' laf'"
proof (induction v n indent out laf and v ds indent' out' laf'
    rule: list_directory_as_tree_dirs_loop.induct)
  case (1 v root_path indent output_lines list_all_files)
  show ?case
  proof (cases root_path)
    case (File z)
    then show ?thesis by simp
  next
    case (Unlistable e)
    then show ?thesis by simp
  next
    case (Dir listing)
    let ?pruned = "filter (\<lambda>e. \<not> skipped v (fst e)) (map (map_prod id (prune v)) listing)"
    have ih: "dirs_loop v (map (map_prod id (prune v)) (level_dirs v listing)) indent output_lines
                list_all_files
              = dirs_loop v (level_dirs v listing) indent output_lines list_all_files"
      by (rule 1[of listing "sort_key fst listing" "separate v (sort_key fst listing) ([], [])"
            "level_files v listing" "level_dirs v listing"])
         (simp_all add: Dir level_dirs_def level_files_def)
    have rf: "render_files v list_all_files (level_files v listing) indent o' (zip_dir_of ?pruned)
              = render_files v list_all_files (level_files v listing) indent o' (zip_dir_of listing)"
      for o'
      by (rule render_files_cong) (simp add: zip_dir_of_prune level_files_not_skipped)
    show ?thesis
      by (cases "dirs_loop v (level_dirs v listing) indent output_lines list_all_files")
         (simp_all add: Dir tree_Dir level_dirs_prune level_files_prune ih rf)
  qed
next
  case (2 v indent output_lines list_all_files)
  show ?case by simp
next
  case (3 v directory sub dirs indent output_lines list_all_files)
  show ?case
  proof (cases "list_directory_as_tree v sub (indent @ ''  '')
                  (output_lines @ [indent @ directory @ ''/'']) list_all_files")
    case (Inl e)
    with 3(1) show ?thesis by simp
  next
    case (Inr b)
    with 3(1) 3(2)[OF Inr] show ?thesis by simp
  qed
qed

subsection \<open>The numbered output files\<close>

lemma digit_value_digit_char: "d < 10 \<Longrightarrow> digit_value (digit_char d) = d"
proof -
  assume "d < 10"
  then have "d \<in> {0, 1, 2, 3, 4, 5, 6, 7, 8, 9}" by auto
  then show ?thesis
    by (auto simp: digit_value_def digit_char_def)
qed

lemma int_of_digits_snoc:
  "int_of_digits (s @ [c]) = 10 * int_of_digits s + digit_value c"
  by (simp add: int_of_digits_def)

lemma int_of_digits_str_nat: "int_of_digits (str_nat n) = n"
proof (induction n rule: str_nat.induct)
  case (1 n)
  show ?case
  proof (cases "n < 10")
    case True
    then show ?thesis
      using digit_value_digit_char[of n]
      by (subst str_nat.simps) (simp add: int_of_digits_def)
  next
    case False
    then have "int_of_digits (str_nat n) = 10 * (n div 10) + n mod 10"
      using 1 digit_value_digit_char[of "n mod 10"]
      by (subst str_nat.simps) (simp add: int_of_digits_snoc)
    then show ?thesis by simp
  qed
qed

lemma int_of_digits_zeros:
  "int_of_digits (replicate k (CHR ''0'') @ s) = int_of_digits s"
proof -
  have "foldl (\<lambda>n c. 10 * n + digit_value c) 0 (replicate k (CHR ''0'')) = 0"
    by (induction k) (simp_all add: digit_value_def)
  then show ?thesis by (simp add: int_of_digits_def)
qed

lemma int_of_digits_format_02d: "int_of_digits (format_02d n) = n"
  by (simp add: format_02d_def int_of_digits_zeros int_of_digits_str_nat)

lemma format_02d_inj: "format_02d m = format_02d n \<Longrightarrow> m = n"
  by (metis int_of_digits_format_02d)

lemma path_join_relative:
  "\<not> startswith b ''/'' \<Longrightarrow> path_join a b = path_join a [] @ b"
  by (simp add: path_join_def startswith_def)

lemma numbered_output_file_eq:
  "numbered_output_file root n = path_join root [] @ ''file_list-'' @ format_02d n @ ''.txt''"
  unfolding numbered_output_file_def
  by (subst path_join_relative) (simp_all add: startswith_def)

lemma numbered_output_file_inj: "inj (numbered_output_file root)"
  by (rule injI) (auto simp: numbered_output_file_eq dest: format_02d_inj)

lemma free_name_exists:
  assumes "finite existing"
  shows "\<exists>n\<ge>c. numbered_output_file root n \<notin> existing"
proof (rule ccontr)
  assume "\<not> (\<exists>n\<ge>c. numbered_output_file root n \<notin> existing)"
  then have "numbered_output_file root ` {c..} \<subseteq> existing" by auto
  then have "finite (numbered_output_file root ` {c..})"
    using assms finite_subset by blast
  then have "finite {c..}"
    by (rule finite_imageD) (rule inj_on_subset[OF numbered_output_file_inj], simp)
  then show False by (simp add: infinite_Ici)
qed

lemma unique_loop_finds:
  assumes "numbered_output_file root n \<notin> existing" and "c \<le> n"
    and "\<forall>m. c \<le> m \<and> m < n \<longrightarrow> numbered_output_file root m \<in> existing"
  shows "unique_loop existing root c = Some (numbered_output_file root n)"
  using assms
proof (induction "n - c" arbitrary: c)
  case 0
  then have "c = n" by simp
  with 0 show ?case by (subst unique_loop.simps) simp
next
  case (Suc d)
  then have lt: "c < n" by simp
  with Suc.prems have "numbered_output_file root c \<in> existing" by simp
  moreover have "unique_loop existing root (c + 1) = Some (numbered_output_file root n)"
    using Suc.hyps Suc.prems lt by (intro Suc.hyps(1)) auto
  ultimately show ?case by (subst unique_loop.simps) simp
qed

subsection \<open>Lines of a text\<close>

lemma leading_spaces_less_2: "leading_spaces l < 2 \<longleftrightarrow> \<not> startswith l ''  ''"
proof (cases l)
  case Nil
  then show ?thesis by (simp add: leading_spaces_def startswith_def)
next
  case (Cons c cs)
  then show ?thesis by (cases cs) (auto simp: leading_spaces_def startswith_def)
qed

lemma universal_newlines_no_CR: "CR \<notin> set (universal_newlines s)"
  by (induction s rule: universal_newlines.induct) (auto simp: CR_def LF_def)

lemma universal_newlines_id: "CR \<notin> set s \<Longrightarrow> universal_newlines s = s"
  by (induction s rule: universal_newlines.induct) auto

lemma concat_readlines: "concat (readlines s) = s"
  by (induction s) (auto split: list.splits)

lemma readlines_Nil_iff: "readlines s = [] \<longleftrightarrow> s = []"
  by (cases s) (auto split: list.splits)

lemma lines_ok_readlines: "lines_ok (readlines s)"
proof (induction s)
  case Nil
  show ?case by simp
next
  case (Cons c cs)
  show ?case
  proof (cases "c = LF")
    case True
    with Cons show ?thesis by (cases "readlines cs") auto
  next
    case False
    show ?thesis
    proof (cases "readlines cs")
      case Nil
      with False show ?thesis by simp
    next
      case (Cons l ls)
      with Cons.IH False show ?thesis by (cases ls) (auto split: if_splits)
    qed
  qed
qed

lemma readlines_partial: "LF \<notin> set l \<Longrightarrow> l \<noteq> [] \<Longrightarrow> readlines l = [l]"
proof (induction l)
  case Nil
  then show ?case by simp
next
  case (Cons c cs)
  then show ?case by (cases cs) (auto split: list.splits)
qed

lemma readlines_complete:
  "LF \<notin> set p \<Longrightarrow> readlines (p @ LF # r) = (p @ [LF]) # readlines r"
  by (induction p) auto

lemma line_cases:
  assumes "l \<noteq> []" and "LF \<notin> set (butlast l)"
  shows "LF \<notin> set l \<or> (\<exists>p. l = p @ [LF] \<and> LF \<notin> set p)"
  using assms by (cases l rule: rev_cases) auto

lemma readlines_single: "l \<noteq> [] \<Longrightarrow> LF \<notin> set (butlast l) \<Longrightarrow> readlines l = [l]"
  using line_cases[of l] readlines_partial[of l] readlines_complete[of _ "[]"] by auto

lemma complete_line:
  assumes "l \<noteq> []" and "LF \<notin> set (butlast l)" and "last l = LF"
  shows "\<exists>p. l = p @ [LF] \<and> LF \<notin> set p"
  using assms by (cases l rule: rev_cases) auto

lemma adjust_line_complete:
  assumes "l = p @ [LF]" and "LF \<notin> set p"
  shows "\<exists>q. adjust_line l = q @ [LF] \<and> LF \<notin> set q"
proof (cases "startswith l ''  ''")
  case False
  with assms show ?thesis by (auto simp: adjust_line_def)
next
  case True
  then obtain rest where l: "l = CHR '' '' # CHR '' '' # rest"
    by (cases l; cases "tl l") (auto simp: startswith_def)
  with assms(1) obtain r' where p: "p = CHR '' '' # CHR '' '' # r'" and rest: "rest = r' @ [LF]"
    by (cases p; cases "tl p") (auto simp: LF_def)
  from p assms(2) have "LF \<notin> set r'" by simp
  moreover have "adjust_line l = rest" using True l by (simp add: adjust_line_def)
  ultimately show ?thesis using rest by simp
qed

lemma second_pass_keeps:
  assumes "lines_ok ls" and "i < length ls" and "\<not> startswith (ls ! i) ''  ''"
  shows "i < length (readlines (concat (map adjust_line ls)))
         \<and> readlines (concat (map adjust_line ls)) ! i = ls ! i"
  using assms
proof (induction ls arbitrary: i rule: lines_ok.induct)
  case 1
  then show ?case by simp
next
  case (2 l)
  then have "adjust_line l = l" by (simp add: adjust_line_def)
  with 2 show ?case by (simp add: readlines_single)
next
  case (3 l l' ls)
  from 3(2) obtain p where p: "l = p @ [LF]" "LF \<notin> set p"
    using complete_line[of l] by auto
  from adjust_line_complete[OF p] obtain q where q: "adjust_line l = q @ [LF]" "LF \<notin> set q"
    by blast
  have r: "readlines (concat (map adjust_line (l # l' # ls)))
           = adjust_line l # readlines (concat (map adjust_line (l' # ls)))"
    using readlines_complete[OF q(2), of "concat (map adjust_line (l' # ls))"] q(1) by simp
  show ?case
  proof (cases i)
    case 0
    with 3(4) have "adjust_line l = l" by (simp add: adjust_line_def)
    with 0 r show ?thesis by simp
  next
    case (Suc j)
    with 3(2,3,4) have "j < length (readlines (concat (map adjust_line (l' # ls))))
         \<and> readlines (concat (map adjust_line (l' # ls))) ! j = (l' # ls) ! j"
      by (intro 3(1)) auto
    with Suc r show ?thesis by simp
  qed
qed

lemma set_adjust_line: "set (adjust_line l) \<subseteq> set l"
  by (auto simp: adjust_line_def dest: in_set_dropD)

lemma adjusted_no_CR:
  "CR \<notin> set (concat (map adjust_line (readlines (universal_newlines s))))"
proof -
  have "set (concat (map adjust_line ls)) \<subseteq> set (concat ls)" for ls
    using set_adjust_line by (induction ls) auto
  from this[of "readlines (universal_newlines s)"] show ?thesis
    using universal_newlines_no_CR[of s] by (auto simp only: concat_readlines)
qed

text \<open>Unfolding sets for evaluating the model on concrete names.\<close>

lemmas pattern_eval = pattern_match_def match_tail_def is_digit_def is_word_def LF_def
lemmas group_eval = group_of_def group_members_def group_keys_def condensed_v2_def
  List.map_filter_def sequence_line_def

lemmas walk_eval = tree_Dir tree_Unlistable tree_File level_dirs_eq level_files_eq render_files_def zip_dir_of_def skipped_def
  startswith_def endswith_def list_all_files_func_v1_def format_image_sequences_v1_def
  format_image_sequences_v2_def list_file_or_zip_def sequence_line_def

subsection \<open>The two frames \<^verbatim>\<open>a.0001.exr\<close> and \<^verbatim>\<open>a.0002.exr\<close>\<close>

text \<open>
  C1, as the specification states it, fails: for the file list
  \<^verbatim>\<open>["a.0001.exr", "a.0002.exr"]\<close> the condensed mode does not append the line
  indent + \<^verbatim>\<open>a[image sequence].exr\<close>, in neither variant. The first group of the pattern
  is everything before the four digits, so the base is \<^verbatim>\<open>a.\<close> with its dot.
\<close>

theorem C1_condensed_line_counterexample:
  "format_image_sequences_v1 [''a.0001.exr'', ''a.0002.exr''] ''  '' []
     \<noteq> [''  '' @ ''a[image sequence].exr'']
   \<and> format_image_sequences_v2 [''a.0001.exr'', ''a.0002.exr''] ''  '' [] (\<lambda>_. BadZipFile)
     \<noteq> Inr [''  '' @ ''a[image sequence].exr'']"
  by (simp add: format_image_sequences_v1_def format_image_sequences_v2_def pattern_match_def
      match_tail_def is_digit_def is_word_def LF_def sequence_line_def)

text \<open>
  C1, amended: for a directory whose file list is exactly
  \<^verbatim>\<open>["a.0001.exr", "a.0002.exr"]\<close>, the condensed mode (\<^verbatim>\<open>format_image_sequences\<close>) appends
  to the output exactly one line, equal to indent + \<^verbatim>\<open>a.[image sequence].exr\<close>, and the
  list-all mode (\<^verbatim>\<open>list_all_files_func\<close>) appends both file names, each as indent + file
  name; in both variants, whatever the indent, the lines collected before and the
  archives of the directory.
\<close>

theorem C1_two_frames:
  "format_image_sequences_v1 [''a.0001.exr'', ''a.0002.exr''] indent output_lines
     = output_lines @ [indent @ ''a.[image sequence].exr'']
   \<and> format_image_sequences_v2 [''a.0001.exr'', ''a.0002.exr''] indent output_lines root_path
     = Inr (output_lines @ [indent @ ''a.[image sequence].exr''])
   \<and> list_all_files_func_v1 [''a.0001.exr'', ''a.0002.exr''] indent output_lines
     = output_lines @ [indent @ ''a.0001.exr'', indent @ ''a.0002.exr'']
   \<and> list_all_files_func_v2 [''a.0001.exr'', ''a.0002.exr''] indent output_lines root_path
     = Inr (output_lines @ [indent @ ''a.0001.exr'', indent @ ''a.0002.exr''])"
  by (simp add: format_image_sequences_v1_def format_image_sequences_v2_def
      list_all_files_func_v1_def list_file_or_zip_def endswith_def pattern_match_def
      match_tail_def is_digit_def is_word_def LF_def sequence_line_def)

subsection \<open>When a group is condensed\<close>



subsection \<open>Which names are frames\<close>

text \<open>
  C3, as the specification states it, fails: a name whose run of digits before the
  extension has five digits is taken as a frame, its last four digits being the frame
  number, and gets a condensed line.
\<close>

theorem C3_sequence_member_counterexample:
  "pattern_match ''a00001.exr'' = Some (''a0'', ''0001'', ''exr'')
   \<and> format_image_sequences_v1 [''a00001.exr''] ''  '' [] = [''  a0[image sequence].exr'']
   \<and> format_image_sequences_v2 [''a00001.exr'', ''a00002.exr''] ''  '' [] (\<lambda>_. BadZipFile)
       = Inr [''  a0[image sequence].exr'']"
  by (simp add: format_image_sequences_v1_def format_image_sequences_v2_def pattern_eval
      sequence_line_def)

text \<open>
  C3, amended: a name of ASCII characters is classified as a member of a frame sequence,
  with a given base, frame and extension, if and only if it is base, four digits, a dot
  and the extension, where the extension is a non-empty run of letters, digits and
  underscores that ends the name (one final newline may follow) and the base has no
  newline; the base may end in digits, so a run of more than four digits matches. In
  both variants the names of a list of ASCII names that the first loop sends to the
  non-sequence path are exactly those that do not match.
\<close>

theorem C3_frame_pattern:
  assumes "list_all is_ascii filename" and "list_all (list_all is_ascii) files"
  shows "(pattern_match filename = Some (base, frame, ext)
            \<longleftrightarrow> frame_shape filename base frame ext)
   \<and> snd (classify_v1 files ([], [])) = filter (\<lambda>f. pattern_match f = None) files
   \<and> snd (classify_v2 files ([], [])) = filter (\<lambda>f. pattern_match f = None) files"
proof (intro conjI iffI)
  assume "pattern_match filename = Some (base, frame, ext)"
  from pattern_match_from_sound[OF this[unfolded pattern_match_def]]
  show "frame_shape filename base frame ext" by (auto simp: frame_shape_def)
next
  assume a: "frame_shape filename base frame ext"
  then have *: "length frame = 4" "list_all is_digit frame" "ext \<noteq> []" "list_all is_word ext"
    "LF \<notin> set base"
    by (auto simp: frame_shape_def)
  from a have "filename = base @ frame @ ''.'' @ ext @ []
               \<or> filename = base @ frame @ ''.'' @ ext @ [LF]"
    by (auto simp: frame_shape_def)
  then show "pattern_match filename = Some (base, frame, ext)"
    unfolding pattern_match_def
    using pattern_match_from_complete[OF *(1-4) _ *(5), of "[]" "[]"]
          pattern_match_from_complete[OF *(1-4) _ *(5), of "[LF]" "[]"] by auto
next
  show "snd (classify_v1 files ([], [])) = filter (\<lambda>f. pattern_match f = None) files"
    using classify_v1_result[of files] by simp
next
  show "snd (classify_v2 files ([], [])) = filter (\<lambda>f. pattern_match f = None) files"
    by (simp add: classify_v2_result)
qed

theorem C3_frame_pattern_witness:
  "list_all is_ascii ''shot_0001.exr''
   \<and> list_all (list_all is_ascii) [''shot_0001.exr'', ''shot_001.exr'']
   \<and> frame_shape ''shot_0001.exr'' ''shot_'' ''0001'' ''exr''
   \<and> pattern_match ''shot_0001.exr'' = Some (''shot_'', ''0001'', ''exr'')
   \<and> snd (classify_v1 [''shot_0001.exr'', ''shot_001.exr''] ([], [])) = [''shot_001.exr'']
   \<and> snd (classify_v2 [''shot_0001.exr'', ''shot_001.exr''] ([], [])) = [''shot_001.exr'']"
proof -
  have a: "list_all is_ascii ''shot_0001.exr''"
    "list_all (list_all is_ascii) [''shot_0001.exr'', ''shot_001.exr'']"
    by (simp_all add: is_ascii_def)
  have h: "frame_shape ''shot_0001.exr'' ''shot_'' ''0001'' ''exr''"
    by (simp add: frame_shape_def is_digit_def is_word_def LF_def)
  have n: "pattern_match ''shot_001.exr'' = None" "pattern_match ''shot_0001.exr'' \<noteq> None"
    by (simp_all add: pattern_eval)
  show ?thesis
    using a h n C3_frame_pattern[OF a, of "''shot_''" "''0001''" "''exr''"]
    by simp
qed

subsection \<open>Corrupted archives\<close>




subsection \<open>Archives inside condensed groups\<close>

text \<open>
  C10: in the condensed mode of the second variant the result of
  \<^verbatim>\<open>format_image_sequences\<close> is the lines collected before, then one condensed line for
  each group of two or more names, then what the per-file renderer \<^verbatim>\<open>list_file_or_zip\<close>
  adds for the names that are not in such a group, in sorted order, and for no other
  name: a member of a condensed group has no line of its own. Its archive is never
  opened: the result is the same for any two states of the archives that agree on the
  names that are not condensed. When every name of the list is in a condensed group the
  result is the condensed lines alone, without content lines, corrupted lines or an
  exception, whatever the archives are.
\<close>

theorem C10_condensed_archives_not_opened:
  "format_image_sequences_v2 files indent output_lines root_path =
     list_all_files_func_v2 (sort (filter (\<lambda>f. \<not> condensed_v2 files f) files)) indent
       (output_lines @ map (sequence_line indent)
          (filter (\<lambda>k. length (group_members files k) > 1) (group_keys files))) root_path
   \<and> ((\<forall>f \<in> set files. \<not> condensed_v2 files f \<longrightarrow> root_path f = root_path' f) \<longrightarrow>
        format_image_sequences_v2 files indent output_lines root_path
        = format_image_sequences_v2 files indent output_lines root_path')
   \<and> ((\<forall>f \<in> set files. condensed_v2 files f) \<longrightarrow>
        format_image_sequences_v2 files indent output_lines root_path
        = Inr (output_lines @ map (sequence_line indent) (group_keys files)))"
proof (intro conjI impI)
  show "format_image_sequences_v2 files indent output_lines root_path =
     list_all_files_func_v2 (sort (filter (\<lambda>f. \<not> condensed_v2 files f) files)) indent
       (output_lines @ map (sequence_line indent)
          (filter (\<lambda>k. length (group_members files k) > 1) (group_keys files))) root_path"
    by (rule format_image_sequences_v2_eq)
next
  assume "\<forall>f \<in> set files. \<not> condensed_v2 files f \<longrightarrow> root_path f = root_path' f"
  then show "format_image_sequences_v2 files indent output_lines root_path
        = format_image_sequences_v2 files indent output_lines root_path'"
    by (intro format_image_sequences_v2_cong) auto
next
  assume all: "\<forall>f \<in> set files. condensed_v2 files f"
  then have none: "filter (\<lambda>f. \<not> condensed_v2 files f) files = []"
    by (simp add: filter_empty_conv)
  have "length (group_members files k) > 1" if "k \<in> set (group_keys files)" for k
  proof -
    from that obtain f where "f \<in> set files" "group_of f = Some k"
      by (auto simp: set_group_keys)
    with all show ?thesis by (auto simp: condensed_v2_def)
  qed
  then have keys: "filter (\<lambda>k. length (group_members files k) > 1) (group_keys files)
                   = group_keys files"
    by (simp add: filter_id_conv)
  show "format_image_sequences_v2 files indent output_lines root_path
        = Inr (output_lines @ map (sequence_line indent) (group_keys files))"
    by (simp only: format_image_sequences_v2_eq none keys sort_key_simps
        list_all_files_func_v2.simps)
qed

theorem C10_condensed_archives_not_opened_witness:
  "format_image_sequences_v2 [''a.0001.zip'', ''a.0002.zip'', ''c.zip''] ''  '' []
        (\<lambda>f. if f = ''c.zip'' then BadZipFile else ZipFile [''x''])
      = format_image_sequences_v2 [''a.0001.zip'', ''a.0002.zip'', ''c.zip''] ''  '' [] (\<lambda>_. BadZipFile)
   \<and> format_image_sequences_v2 [''a.0001.zip'', ''a.0002.zip'', ''c.zip''] ''  '' [] (\<lambda>_. BadZipFile)
      = Inr [''  a.[image sequence].zip'', ''  c.zip [Corrupted ZIP]'']
   \<and> format_image_sequences_v2 [''a.0001.zip'', ''a.0002.zip''] ''  '' []
        (\<lambda>_. ZipRaises UnicodeDecodeError)
      = Inr [''  a.[image sequence].zip'']"
proof -
  have h: "\<forall>f \<in> set [''a.0001.zip'', ''a.0002.zip'', ''c.zip''].
      \<not> condensed_v2 [''a.0001.zip'', ''a.0002.zip'', ''c.zip''] f \<longrightarrow>
      (\<lambda>_. BadZipFile) f = (\<lambda>f. if f = ''c.zip'' then BadZipFile else ZipFile [''x'']) f"
    by (simp add: group_eval pattern_eval)
  have e: "format_image_sequences_v2 [''a.0001.zip'', ''a.0002.zip'', ''c.zip''] ''  '' [] (\<lambda>_. BadZipFile)
      = Inr [''  a.[image sequence].zip'', ''  c.zip [Corrupted ZIP]'']"
    by (simp add: format_image_sequences_v2_def pattern_eval sequence_line_def
        list_file_or_zip_def endswith_def)
  have g: "\<forall>f \<in> set [''a.0001.zip'', ''a.0002.zip'']. condensed_v2 [''a.0001.zip'', ''a.0002.zip''] f"
    by (simp add: group_eval pattern_eval)
  have k: "map (sequence_line ''  '') (group_keys [''a.0001.zip'', ''a.0002.zip''])
           = [''  a.[image sequence].zip'']"
    by (simp add: group_eval pattern_eval)
  from C10_condensed_archives_not_opened[of "[''a.0001.zip'', ''a.0002.zip'', ''c.zip'']" "''  ''" "[]"
      "\<lambda>_. BadZipFile" "\<lambda>f. if f = ''c.zip'' then BadZipFile else ZipFile [''x'']"] h
  have one: "format_image_sequences_v2 [''a.0001.zip'', ''a.0002.zip'', ''c.zip''] ''  '' []
        (\<lambda>_. BadZipFile)
      = format_image_sequences_v2 [''a.0001.zip'', ''a.0002.zip'', ''c.zip''] ''  '' []
        (\<lambda>f. if f = ''c.zip'' then BadZipFile else ZipFile [''x''])"
    by blast
  from C10_condensed_archives_not_opened[of "[''a.0001.zip'', ''a.0002.zip'']" "''  ''" "[]"
      "\<lambda>_. ZipRaises UnicodeDecodeError" "\<lambda>_. ZipRaises UnicodeDecodeError"] g
  have two: "format_image_sequences_v2 [''a.0001.zip'', ''a.0002.zip''] ''  '' []
        (\<lambda>_. ZipRaises UnicodeDecodeError)
      = Inr ([] @ map (sequence_line ''  '') (group_keys [''a.0001.zip'', ''a.0002.zip'']))"
    by blast
  show ?thesis
    using one two e by (simp only: k append_Nil simp_thms)
qed

subsection \<open>Directories before files\<close>

text \<open>
  C4: at every level of the walk, in both variants and both modes, the result is the
  lines collected before, then all the lines of the subdirectories of the level, then
  the file lines of the level. The lines of the subdirectories are, directory by
  directory in sorted order, the line of the directory followed by the lines of the
  walk below it. The directories and the files of the level are taken from the sorted
  listing, so a file name that sorts before a directory name still comes after it.
  An exception raised below or by a file renderer is the result of the level.
\<close>

theorem C4_directories_before_files:
  "list_directory_as_tree v (Dir listing) indent output_lines list_all_files =
     (case dirs_loop v (level_dirs v listing) indent [] list_all_files of
        Inl e \<Rightarrow> Inl e
      | Inr dir_lines \<Rightarrow>
          (case render_files v list_all_files (level_files v listing) indent []
                  (zip_dir_of listing) of
             Inl e \<Rightarrow> Inl e
           | Inr file_lines \<Rightarrow> Inr (output_lines @ dir_lines @ file_lines)))
   \<and> dirs_loop v ((directory, sub) # dirs) indent [] list_all_files =
     (case list_directory_as_tree v sub (indent @ ''  '') [] list_all_files of
        Inl e \<Rightarrow> Inl e
      | Inr sub_lines \<Rightarrow>
          (case dirs_loop v dirs indent [] list_all_files of
             Inl e \<Rightarrow> Inl e
           | Inr rest \<Rightarrow> Inr ((indent @ directory @ ''/'') # sub_lines @ rest)))
   \<and> level_dirs v listing
       = filter (\<lambda>e. \<not> skipped v (fst e) \<and> isdir (snd e)) (sort_key fst listing)
   \<and> level_files v listing
       = map fst (filter (\<lambda>e. \<not> skipped v (fst e) \<and> \<not> isdir (snd e)) (sort_key fst listing))"
  using tree_Dir_lines[of v listing indent output_lines list_all_files]
    dirs_loop_Cons_lines[of v directory sub dirs indent list_all_files]
    level_dirs_eq[of v listing] level_files_eq[of v listing]
  by (intro conjI)

theorem C4_directories_before_files_witness:
  "list_directory_as_tree V1
     (Dir [(''a.txt'', File BadZipFile), (''z'', Dir [(''b.txt'', File BadZipFile)]), (''m'', Dir [])])
     ''  '' [] False
   = Inr [''  m/'', ''  z/'', ''    b.txt'', ''  a.txt'']
   \<and> list_directory_as_tree V2
     (Dir [(''a.txt'', File BadZipFile), (''z'', Dir [(''b.txt'', File BadZipFile)]), (''m'', Dir [])])
     ''  '' [] True
   = Inr [''  m/'', ''  z/'', ''    b.txt'', ''  a.txt'']"
  using C4_directories_before_files[of V1
      "[(''a.txt'', File BadZipFile), (''z'', Dir [(''b.txt'', File BadZipFile)]), (''m'', Dir [])]"
      "''  ''" "[]" False "''m''" "Dir []" "[]"]
  by (simp add: walk_eval pattern_eval)

subsection \<open>Excluded entries\<close>

text \<open>
  C5, as the specification states it, fails for the first variant: it has no test for
  \<^verbatim>\<open>file_list.pdf\<close> (it writes no PDF), so a file of that name is listed like any other.
\<close>

theorem C5_first_variant_pdf_counterexample:
  "\<not> skipped V1 ''file_list.pdf''
   \<and> list_directory_as_tree V1 (Dir [(''file_list.pdf'', File BadZipFile)]) ''  '' [] False
       = Inr [''  file_list.pdf'']
   \<and> list_directory_as_tree V1 (Dir [(''file_list.pdf'', File BadZipFile)]) ''  '' [] True
       = Inr [''  file_list.pdf'']"
  by (simp add: walk_eval pattern_eval)

text \<open>
  C5, amended: in the second variant an entry whose name starts with a dot or is
  \<^verbatim>\<open>file_list.txt\<close> or \<^verbatim>\<open>file_list.pdf\<close>, and in the first variant an entry whose name
  starts with a dot or is \<^verbatim>\<open>file_list.txt\<close>, is excluded at every level of the walk: the
  result of the walk is the result on the tree from which these entries and everything
  below them are removed, and no such name is among the directories and files that a
  level passes on.
\<close>

theorem C5_excluded_entries:
  "list_directory_as_tree v (prune v root_path) indent output_lines list_all_files
     = list_directory_as_tree v root_path indent output_lines list_all_files
   \<and> list_all (\<lambda>e. \<not> skipped v (fst e)) (level_dirs v listing)
   \<and> list_all (\<lambda>f. \<not> skipped v f) (level_files v listing)
   \<and> skipped V2 entry
       = (startswith entry ''.'' \<or> entry = ''file_list.txt'' \<or> entry = ''file_list.pdf'')
   \<and> skipped V1 entry = (startswith entry ''.'' \<or> entry = ''file_list.txt'')"
proof (intro conjI)
  show "list_directory_as_tree v (prune v root_path) indent output_lines list_all_files
     = list_directory_as_tree v root_path indent output_lines list_all_files"
    by (rule walk_prune(1))
  show "list_all (\<lambda>e. \<not> skipped v (fst e)) (level_dirs v listing)"
    by (simp add: list_all_iff level_dirs_not_skipped)
  show "list_all (\<lambda>f. \<not> skipped v f) (level_files v listing)"
    by (simp add: list_all_iff level_files_not_skipped)
  show "skipped V2 entry
       = (startswith entry ''.'' \<or> entry = ''file_list.txt'' \<or> entry = ''file_list.pdf'')"
    by (auto simp: skipped_def startswith_def)
  show "skipped V1 entry = (startswith entry ''.'' \<or> entry = ''file_list.txt'')"
    by (auto simp: skipped_def startswith_def)
qed

theorem C5_excluded_entries_witness:
  "prune V2 (Dir [(''.git'', Dir [(''config'', File BadZipFile)]),
                  (''file_list.txt'', File BadZipFile),
                  (''src'', Dir [(''.DS_Store'', File BadZipFile),
                                (''file_list.pdf'', File BadZipFile),
                                (''a.txt'', File BadZipFile)])])
     = Dir [(''src'', Dir [(''a.txt'', File BadZipFile)])]
   \<and> list_directory_as_tree V2
        (Dir [(''.git'', Dir [(''config'', File BadZipFile)]),
              (''file_list.txt'', File BadZipFile),
              (''src'', Dir [(''.DS_Store'', File BadZipFile),
                            (''file_list.pdf'', File BadZipFile),
                            (''a.txt'', File BadZipFile)])])
        ''  '' [] True
     = Inr [''  src/'', ''    a.txt'']"
proof -
  have p: "prune V2 (Dir [(''.git'', Dir [(''config'', File BadZipFile)]),
                  (''file_list.txt'', File BadZipFile),
                  (''src'', Dir [(''.DS_Store'', File BadZipFile),
                                (''file_list.pdf'', File BadZipFile),
                                (''a.txt'', File BadZipFile)])])
     = Dir [(''src'', Dir [(''a.txt'', File BadZipFile)])]"
    by (simp add: skipped_def startswith_def)
  have e: "list_directory_as_tree V2 (Dir [(''src'', Dir [(''a.txt'', File BadZipFile)])])
             ''  '' [] True = Inr [''  src/'', ''    a.txt'']"
    by (simp add: walk_eval)
  show ?thesis
    using C5_excluded_entries[of V2
        "Dir [(''.git'', Dir [(''config'', File BadZipFile)]),
              (''file_list.txt'', File BadZipFile),
              (''src'', Dir [(''.DS_Store'', File BadZipFile),
                            (''file_list.pdf'', File BadZipFile),
                            (''a.txt'', File BadZipFile)])]" "''  ''" "[]" True "[]" "[]"]
    by (simp only: p e simp_thms)
qed

subsection \<open>A listing that fails\<close>

text \<open>
  C8, as the specification states it, fails: the walk catches \<^verbatim>\<open>FileNotFoundError\<close> only.
  A directory that cannot be read raises \<^verbatim>\<open>PermissionError\<close> in \<^verbatim>\<open>os.listdir\<close>, which
  leaves the walk as an exception, also when the directory has siblings to visit.
\<close>

theorem C8_permission_counterexample:
  "list_directory_as_tree V1 (Unlistable PermissionError) ''  '' [] False = Inl PermissionError
   \<and> list_directory_as_tree V2 (Unlistable PermissionError) ''  '' [] False = Inl PermissionError
   \<and> list_directory_as_tree V1
       (Dir [(''a'', Unlistable PermissionError), (''b'', Dir [(''c.txt'', File BadZipFile)])])
       ''  '' [] False = Inl PermissionError
   \<and> list_directory_as_tree V2
       (Dir [(''a'', Unlistable PermissionError), (''b'', Dir [(''c.txt'', File BadZipFile)])])
       ''  '' [] False = Inl PermissionError"
  by (simp add: walk_eval pattern_eval)

text \<open>
  C8, amended: for a path whose listing fails because the path does not exist at that
  moment (\<^verbatim>\<open>FileNotFoundError\<close>), \<^verbatim>\<open>list_directory_as_tree\<close> returns without raising and
  adds no line, and the loop over the directories of the parent goes on with the
  siblings, after the line of the vanished directory itself.
\<close>

theorem C8_vanished_directory:
  "list_directory_as_tree v (Unlistable FileNotFoundError) indent output_lines list_all_files
     = Inr output_lines
   \<and> dirs_loop v ((directory, Unlistable FileNotFoundError) # dirs) indent output_lines list_all_files
     = dirs_loop v dirs indent (output_lines @ [indent @ directory @ ''/'']) list_all_files"
  by (simp add: tree_Unlistable)

theorem C8_vanished_directory_witness:
  "list_directory_as_tree V1
       (Dir [(''a'', Unlistable FileNotFoundError), (''b'', Dir [(''c.txt'', File BadZipFile)])])
       ''  '' [] False = Inr [''  a/'', ''  b/'', ''    c.txt'']
   \<and> list_directory_as_tree V2
       (Dir [(''a'', Unlistable FileNotFoundError), (''b'', Dir [(''c.txt'', File BadZipFile)])])
       ''  '' [] False = Inr [''  a/'', ''  b/'', ''    c.txt'']"
  using C8_vanished_directory[of V1 "''  ''" "[]" False "''a''"
      "[(''b'', Dir [(''c.txt'', File BadZipFile)])]"]
  by (simp add: walk_eval pattern_eval)

subsection \<open>The indentation pass, applied twice\<close>

text \<open>
  C6: for a file that exists, the pass rewrites it with each line \<^verbatim>\<open>line[2:]\<close> when the line
  begins with two spaces and the line itself otherwise; a second pass on the file so
  written succeeds as well, and every line of the written file that has fewer than two
  leading spaces is, at the same position, a line of the result of the second pass,
  character by character.
\<close>

theorem C6_second_pass:
  assumes "disk output_file = Some text"
  shows "\<exists>text1 text2.
      adjust_indentation_in_file output_file disk = Inr (disk(output_file \<mapsto> text1))
    \<and> adjust_indentation_in_file output_file (disk(output_file \<mapsto> text1))
        = Inr (disk(output_file \<mapsto> text2))
    \<and> text1 = concat (map adjust_line (readlines (universal_newlines text)))
    \<and> text2 = concat (map adjust_line (readlines text1))
    \<and> (\<forall>line. adjust_line line = (if startswith line ''  '' then drop 2 line else line))
    \<and> (\<forall>i < length (readlines text1). leading_spaces (readlines text1 ! i) < 2 \<longrightarrow>
          i < length (readlines text2) \<and> readlines text2 ! i = readlines text1 ! i)"
proof -
  define text1 where "text1 = concat (map adjust_line (readlines (universal_newlines text)))"
  define text2 where "text2 = concat (map adjust_line (readlines text1))"
  have first: "adjust_indentation_in_file output_file disk = Inr (disk(output_file \<mapsto> text1))"
    using assms by (simp add: adjust_indentation_in_file_def text1_def)
  have "CR \<notin> set text1" unfolding text1_def by (rule adjusted_no_CR)
  then have "universal_newlines text1 = text1" by (rule universal_newlines_id)
  then have second: "adjust_indentation_in_file output_file (disk(output_file \<mapsto> text1))
        = Inr (disk(output_file \<mapsto> text2))"
    by (simp add: adjust_indentation_in_file_def text2_def)
  have keep: "i < length (readlines text2) \<and> readlines text2 ! i = readlines text1 ! i"
    if "i < length (readlines text1)" "leading_spaces (readlines text1 ! i) < 2" for i
    unfolding text2_def
    using that lines_ok_readlines[of text1]
    by (intro second_pass_keeps) (simp_all add: leading_spaces_less_2)
  show ?thesis
  proof (rule exI[of _ text1], rule exI[of _ text2], intro conjI allI impI)
    show "adjust_indentation_in_file output_file disk = Inr (disk(output_file \<mapsto> text1))"
      by (rule first)
    show "adjust_indentation_in_file output_file (disk(output_file \<mapsto> text1))
          = Inr (disk(output_file \<mapsto> text2))" by (rule second)
    show "text1 = concat (map adjust_line (readlines (universal_newlines text)))"
      by (rule text1_def)
    show "text2 = concat (map adjust_line (readlines text1))" by (rule text2_def)
    show "adjust_line line = (if startswith line ''  '' then drop 2 line else line)" for line
      by (rule adjust_line_def)
    show "i < length (readlines text2)"
      if "i < length (readlines text1)" "leading_spaces (readlines text1 ! i) < 2" for i
      using keep[OF that] by blast
    show "readlines text2 ! i = readlines text1 ! i"
      if "i < length (readlines text1)" "leading_spaces (readlines text1 ! i) < 2" for i
      using keep[OF that] by blast
  qed
qed

theorem C6_second_pass_witness:
  "adjust_indentation_in_file ''f'' [''f'' \<mapsto> ''    a\<newline>  b\<newline>c'']
     = Inr [''f'' \<mapsto> ''  a\<newline>b\<newline>c'']
   \<and> adjust_indentation_in_file ''f'' [''f'' \<mapsto> ''  a\<newline>b\<newline>c'']
     = Inr [''f'' \<mapsto> ''a\<newline>b\<newline>c'']"
proof -
  have h: "[''f'' \<mapsto> ''    a\<newline>  b\<newline>c''] ''f'' = Some ''    a\<newline>  b\<newline>c''"
    by simp
  have e1: "concat (map adjust_line (readlines (universal_newlines ''    a\<newline>  b\<newline>c'')))
            = ''  a\<newline>b\<newline>c''"
    by (simp add: CR_def LF_def adjust_line_def startswith_def)
  have e2: "concat (map adjust_line (readlines ''  a\<newline>b\<newline>c'')) = ''a\<newline>b\<newline>c''"
    by (simp add: LF_def adjust_line_def startswith_def)
  from C6_second_pass[of "[''f'' \<mapsto> ''    a\<newline>  b\<newline>c'']" "''f''"
      "''    a\<newline>  b\<newline>c''", OF h]
  obtain text1 text2 where
    "adjust_indentation_in_file ''f'' [''f'' \<mapsto> ''    a\<newline>  b\<newline>c'']
       = Inr ([''f'' \<mapsto> ''    a\<newline>  b\<newline>c''](''f'' \<mapsto> text1))"
    "adjust_indentation_in_file ''f'' ([''f'' \<mapsto> ''    a\<newline>  b\<newline>c''](''f'' \<mapsto> text1))
       = Inr ([''f'' \<mapsto> ''    a\<newline>  b\<newline>c''](''f'' \<mapsto> text2))"
    "text1 = concat (map adjust_line (readlines (universal_newlines ''    a\<newline>  b\<newline>c'')))"
    "text2 = concat (map adjust_line (readlines text1))"
    by blast
  then show ?thesis by (simp only: e1 e2 fun_upd_upd simp_thms)
qed

subsection \<open>The name of the output file in the first variant\<close>

text \<open>
  C9: for every state of the root directory, a finite set of existing paths,
  \<^verbatim>\<open>get_unique_output_file\<close> returns, and the path it returns does not exist: it is
  \<^verbatim>\<open>file_list.txt\<close> in the root directory if that does not exist, and otherwise the name
  \<^verbatim>\<open>file_list-NN.txt\<close> with the least counter from 2 on, written with at least two digits,
  whose name does not exist. So a second scan does not overwrite \<^verbatim>\<open>file_list.txt\<close>.
\<close>

theorem C9_unique_output_file:
  assumes "finite existing"
  shows "\<exists>p. get_unique_output_file existing root_directory = Some p \<and> p \<notin> existing
     \<and> (path_join root_directory ''file_list.txt'' \<notin> existing
          \<longrightarrow> p = path_join root_directory ''file_list.txt'')
     \<and> (path_join root_directory ''file_list.txt'' \<in> existing
          \<longrightarrow> (\<exists>n\<ge>2. p = numbered_output_file root_directory n
                  \<and> (\<forall>m. 2 \<le> m \<and> m < n \<longrightarrow> numbered_output_file root_directory m \<in> existing)))"
proof (cases "path_join root_directory ''file_list.txt'' \<in> existing")
  case False
  then have r: "get_unique_output_file existing root_directory
                = Some (path_join root_directory ''file_list.txt'')"
    by (simp add: get_unique_output_file_def)
  show ?thesis
  proof (intro exI[of _ "path_join root_directory ''file_list.txt''"] conjI impI)
    show "get_unique_output_file existing root_directory
          = Some (path_join root_directory ''file_list.txt'')" by (rule r)
    show "path_join root_directory ''file_list.txt'' \<notin> existing" by (rule False)
    show "path_join root_directory ''file_list.txt'' = path_join root_directory ''file_list.txt''"
      by (rule refl)
    show "\<exists>n\<ge>2. path_join root_directory ''file_list.txt'' = numbered_output_file root_directory n
            \<and> (\<forall>m. 2 \<le> m \<and> m < n \<longrightarrow> numbered_output_file root_directory m \<in> existing)"
      if "path_join root_directory ''file_list.txt'' \<in> existing"
      using that False by blast
  qed
next
  case True
  define n where "n = (LEAST n. 2 \<le> n \<and> numbered_output_file root_directory n \<notin> existing)"
  from free_name_exists[OF assms, of 2 root_directory]
  have ex: "\<exists>n. 2 \<le> n \<and> numbered_output_file root_directory n \<notin> existing" by blast
  have "2 \<le> n \<and> numbered_output_file root_directory n \<notin> existing"
    unfolding n_def by (rule LeastI_ex[OF ex])
  then have n: "2 \<le> n" "numbered_output_file root_directory n \<notin> existing" by blast+
  have below: "numbered_output_file root_directory m \<in> existing" if "2 \<le> m" "m < n" for m
  proof (rule ccontr)
    assume "numbered_output_file root_directory m \<notin> existing"
    with that(1) have "n \<le> m" unfolding n_def by (intro Least_le) blast
    with that(2) show False by simp
  qed
  then have below': "\<forall>m. 2 \<le> m \<and> m < n \<longrightarrow> numbered_output_file root_directory m \<in> existing"
    by blast
  have "unique_loop existing root_directory 2 = Some (numbered_output_file root_directory n)"
    by (rule unique_loop_finds[OF n(2) n(1) below'])
  with True have r: "get_unique_output_file existing root_directory
                     = Some (numbered_output_file root_directory n)"
    by (simp add: get_unique_output_file_def)
  show ?thesis
  proof (intro exI[of _ "numbered_output_file root_directory n"] conjI impI)
    show "get_unique_output_file existing root_directory
          = Some (numbered_output_file root_directory n)" by (rule r)
    show "numbered_output_file root_directory n \<notin> existing" by (rule n(2))
    show "numbered_output_file root_directory n = path_join root_directory ''file_list.txt''"
      if "path_join root_directory ''file_list.txt'' \<notin> existing"
      using that True by blast
    show "\<exists>k\<ge>2. numbered_output_file root_directory n = numbered_output_file root_directory k
            \<and> (\<forall>m. 2 \<le> m \<and> m < k \<longrightarrow> numbered_output_file root_directory m \<in> existing)"
      using n(1) below' by blast
  qed
qed

theorem C9_unique_output_file_witness:
  "finite {''d/file_list.txt'', ''d/file_list-02.txt''}
   \<and> get_unique_output_file {''d/file_list.txt'', ''d/file_list-02.txt''} ''d''
       = Some ''d/file_list-03.txt''
   \<and> get_unique_output_file {''d/file_list.txt''} ''d'' = Some ''d/file_list-02.txt''
   \<and> get_unique_output_file {} ''d'' = Some ''d/file_list.txt''"
proof -
  have f: "finite {''d/file_list.txt'', ''d/file_list-02.txt''}" by simp
  have n: "numbered_output_file ''d'' 2 = ''d/file_list-02.txt''"
    "numbered_output_file ''d'' 3 = ''d/file_list-03.txt''"
    by (simp_all add: numbered_output_file_def path_join_def startswith_def endswith_def
        format_02d_def str_nat.simps digit_char_def)
  have b: "path_join ''d'' ''file_list.txt'' = ''d/file_list.txt''"
    by (simp add: path_join_def startswith_def endswith_def)
  have l3: "unique_loop {''d/file_list.txt'', ''d/file_list-02.txt''} ''d'' 3 = Some ''d/file_list-03.txt''"
    by (subst unique_loop.simps) (simp add: n)
  have l2: "unique_loop {''d/file_list.txt'', ''d/file_list-02.txt''} ''d'' 2 = Some ''d/file_list-03.txt''"
    using l3 by (subst unique_loop.simps) (simp add: n)
  have l2': "unique_loop {''d/file_list.txt''} ''d'' 2 = Some ''d/file_list-02.txt''"
    by (subst unique_loop.simps) (simp add: n)
  show ?thesis
    using C9_unique_output_file[OF f, of "''d''"] f l2 l2'
    by (simp add: get_unique_output_file_def b)
qed

end
